theory Spec2Isabelle
  imports Main "HOL-Library.Word" "HOL-Library.Signed_Division"
begin

section \<open>C data: characters, integers, strings and buffers\<close>

text \<open>
  The program is C compiled with gcc (see the Makefile). A \<open>char\<close> is a signed 8-bit
  value and an \<open>int\<close> a signed 32-bit value; both are words read through \<open>sint\<close>.
  Arithmetic on characters happens after promotion to \<open>int\<close>; it is written on the
  mathematical integers, where \<open>smod\<close> is C's remainder (it truncates towards zero).

  A string argument \<open>const char *s\<close> is the list of the bytes its buffer holds in front of
  the final terminator: the byte at index \<open>length s\<close> is NUL. The library function
  \<open>strlen\<close> stops at the first NUL, which may come earlier.

  An output argument \<open>char *buf\<close> is the list of the bytes of the caller's buffer, which
  does not overlap the input (crypto.h asks for a buffer of its own); the callee returns
  the buffer as it has left it. A store outside the buffer is undefined
  behaviour in C and an error of the model, as is a division by zero and the overflow of
  a signed operation.
\<close>

type_synonym cchar = "8 word"
type_synonym cint = "32 word"

datatype error = DivisionByZero | SignedOverflow | OutOfBounds

definition bytes :: "string \<Rightarrow> cchar list" where
  "bytes s = map of_char s"

definition strlen :: "cchar list \<Rightarrow> nat" where
  "strlen s = length (takeWhile (\<lambda>c. c \<noteq> 0) s)"

text \<open>The C string a buffer holds: what \<open>printf("%s")\<close> prints and \<open>strcmp\<close> compares.\<close>

definition c_str :: "cchar list \<Rightarrow> cchar list" where
  "c_str s = takeWhile (\<lambda>c. c \<noteq> 0) s"

text \<open>\<open>buf[i] = c\<close>\<close>

definition store :: "cchar list \<Rightarrow> nat \<Rightarrow> cchar \<Rightarrow> error + cchar list" where
  "store buf i c = (if i < length buf then Inr (buf[i := c]) else Inl OutOfBounds)"

text \<open>\<open>s[i]\<close> for a string argument: index \<open>length s\<close> holds the terminator.\<close>

definition load :: "cchar list \<Rightarrow> nat \<Rightarrow> error + cchar" where
  "load s i = (if i < length s then Inr (s ! i) else if i = length s then Inr 0
               else Inl OutOfBounds)"

text \<open>\<open>a % b\<close> on \<open>int\<close> operands.\<close>

definition c_rem :: "int \<Rightarrow> int \<Rightarrow> error + int" where
  "c_rem a b = (if b = 0 then Inl DivisionByZero
                else if a = - (2 ^ 31) \<and> b = - 1 then Inl SignedOverflow
                else Inr (a smod b))"

text \<open>The test \<open>range_low <= c && c <= range_high\<close> of all four transforms.\<close>

definition in_range :: "cchar \<Rightarrow> cchar \<Rightarrow> cchar \<Rightarrow> bool" where
  "in_range range_low range_high c = (range_low \<le>s c \<and> c \<le>s range_high)"

section \<open>The Caesar cipher (crypto.c, lines 15 to 35)\<close>

text \<open>
  The body of the loop of \<open>caesar_encrypt\<close> up to the store: the character written for
  the character \<open>c\<close> read. \<open>key\<close> is the key after line 19.
\<close>

definition caesar_char :: "cchar \<Rightarrow> cchar \<Rightarrow> int \<Rightarrow> int \<Rightarrow> cchar \<Rightarrow> error + cchar" where
  "caesar_char range_low range_high key range_size c =
     (if range_low \<le>s c \<and> c \<le>s range_high
      then (case c_rem (sint c - sint range_low + key) range_size of
              Inl e \<Rightarrow> Inl e
            | Inr r \<Rightarrow> Inr (word_of_int (sint range_low + \<bar>r\<bar>)))
      else Inr c)"

function caesar_loop ::
  "cchar \<Rightarrow> cchar \<Rightarrow> int \<Rightarrow> int \<Rightarrow> cchar list \<Rightarrow> nat \<Rightarrow> nat \<Rightarrow> cchar list \<Rightarrow> error + cchar list"
where
  "caesar_loop range_low range_high key range_size plain_text plain_text_len i cipher_text =
     (if i < plain_text_len then
        (case caesar_char range_low range_high key range_size (plain_text ! i) of
           Inl e \<Rightarrow> Inl e
         | Inr c \<Rightarrow>
             (case store cipher_text i c of
                Inl e \<Rightarrow> Inl e
              | Inr cipher_text' \<Rightarrow>
                  caesar_loop range_low range_high key range_size plain_text plain_text_len
                    (Suc i) cipher_text'))
      else Inr cipher_text)"
  by pat_completeness auto
termination
  by (relation "measure (\<lambda>(lo, hi, k, rs, pt, len, i, ct). len - i)") auto

declare caesar_loop.simps [simp del]

definition caesar_encrypt ::
  "cchar \<Rightarrow> cchar \<Rightarrow> cint \<Rightarrow> cchar list \<Rightarrow> cchar list \<Rightarrow> error + cchar list"
where
  "caesar_encrypt range_low range_high key plain_text cipher_text =
     (let plain_text_len = strlen plain_text;
          range_size = sint range_high - sint range_low + 1
      in case c_rem (sint key) range_size of
           Inl e \<Rightarrow> Inl e
         | Inr r \<Rightarrow>
             (case c_rem (r + range_size) range_size of
                Inl e \<Rightarrow> Inl e
              | Inr key' \<Rightarrow>
                  (case caesar_loop range_low range_high key' range_size plain_text
                          plain_text_len 0 cipher_text of
                     Inl e \<Rightarrow> Inl e
                   | Inr cipher_text' \<Rightarrow> store cipher_text' plain_text_len 0)))"

text \<open>\<open>-key\<close> overflows for the least \<open>int\<close>.\<close>

definition caesar_decrypt ::
  "cchar \<Rightarrow> cchar \<Rightarrow> cint \<Rightarrow> cchar list \<Rightarrow> cchar list \<Rightarrow> error + cchar list"
where
  "caesar_decrypt range_low range_high key cipher_text plain_text =
     (if sint key = - (2 ^ 31) then Inl SignedOverflow
      else caesar_encrypt range_low range_high (- key) cipher_text plain_text)"

section \<open>The Vigenere cipher (crypto.c, lines 38 to 76)\<close>

text \<open>
  \<open>vigenere_encrypt\<close> and \<open>vigenere_decrypt\<close> are the same text but for the Caesar
  function they call, which is the parameter \<open>caesar\<close> here. The pointers
  \<open>&plain_text[i]\<close> and \<open>&cipher_text[i]\<close> handed to it are the parts of the two buffers
  from index \<open>i\<close> on; what the callee leaves in the second one replaces that part of the
  caller's buffer.

  One iteration of the loop, from the keyword index and the output buffer to the new ones:
\<close>

type_synonym caesar_fn =
  "cchar \<Rightarrow> cchar \<Rightarrow> cint \<Rightarrow> cchar list \<Rightarrow> cchar list \<Rightarrow> error + cchar list"

definition vigenere_body ::
  "caesar_fn \<Rightarrow> cchar \<Rightarrow> cchar \<Rightarrow> cchar list \<Rightarrow> nat \<Rightarrow> cchar list \<Rightarrow> nat \<Rightarrow> nat \<Rightarrow> cchar list
     \<Rightarrow> error + nat \<times> cchar list"
where
  "vigenere_body caesar range_low range_high key key_length text i index out =
     (let c = text ! i
      in if range_low \<le>s c \<and> c \<le>s range_high then
           (case load key index of
              Inl e \<Rightarrow> Inl e
            | Inr k \<Rightarrow>
                (let caesar_key = word_of_int (sint k - sint range_low)
                 in case caesar range_low range_high caesar_key (drop i text) (drop i out) of
                      Inl e \<Rightarrow> Inl e
                    | Inr rest \<Rightarrow>
                        if key_length = 0 then Inl DivisionByZero
                        else Inr ((index + 1) mod key_length, take i out @ rest)))
         else (case store out i c of
                 Inl e \<Rightarrow> Inl e
               | Inr out' \<Rightarrow> Inr (index, out')))"

function vigenere_loop ::
  "caesar_fn \<Rightarrow> cchar \<Rightarrow> cchar \<Rightarrow> cchar list \<Rightarrow> nat \<Rightarrow> cchar list \<Rightarrow> nat \<Rightarrow> nat \<Rightarrow> nat
     \<Rightarrow> cchar list \<Rightarrow> error + cchar list"
where
  "vigenere_loop caesar range_low range_high key key_length text text_len i index out =
     (if i < text_len then
        (case vigenere_body caesar range_low range_high key key_length text i index out of
           Inl e \<Rightarrow> Inl e
         | Inr (index', out') \<Rightarrow>
             vigenere_loop caesar range_low range_high key key_length text text_len
               (Suc i) index' out')
      else Inr out)"
  by pat_completeness auto
termination
  by (relation "measure (\<lambda>(f, lo, hi, k, kl, t, len, i, ix, out). len - i)") auto

declare vigenere_loop.simps [simp del]

definition vigenere ::
  "caesar_fn \<Rightarrow> cchar \<Rightarrow> cchar \<Rightarrow> cchar list \<Rightarrow> cchar list \<Rightarrow> cchar list \<Rightarrow> error + cchar list"
where
  "vigenere caesar range_low range_high key text out =
     (let text_len = strlen text;
          key_length = strlen key
      in case vigenere_loop caesar range_low range_high key key_length text text_len 0 0 out of
           Inl e \<Rightarrow> Inl e
         | Inr out' \<Rightarrow> store out' text_len 0)"

definition vigenere_encrypt ::
  "cchar \<Rightarrow> cchar \<Rightarrow> cchar list \<Rightarrow> cchar list \<Rightarrow> cchar list \<Rightarrow> error + cchar list"
where
  "vigenere_encrypt range_low range_high key plain_text cipher_text =
     vigenere caesar_encrypt range_low range_high key plain_text cipher_text"

definition vigenere_decrypt ::
  "cchar \<Rightarrow> cchar \<Rightarrow> cchar list \<Rightarrow> cchar list \<Rightarrow> cchar list \<Rightarrow> error + cchar list"
where
  "vigenere_decrypt range_low range_high key cipher_text plain_text =
     vigenere caesar_decrypt range_low range_high key cipher_text plain_text"

section \<open>The command line (crypto.c, lines 97 to 253)\<close>

text \<open>
  What a run leaves behind: the status returned, and the text written to the standard
  output and to the standard error.
\<close>

record outcome =
  exit_status :: int
  stdout :: "cchar list"
  stderr :: "cchar list"

definition RANGE_LOW :: cchar where
  "RANGE_LOW = of_char CHR ''A''"

definition RANGE_HIGH :: cchar where
  "RANGE_HIGH = of_char CHR ''Z''"

definition INT_MIN :: int where
  "INT_MIN = - (2 ^ 31)"

definition INT_MAX :: int where
  "INT_MAX = 2 ^ 31 - 1"

text \<open>\<open>strcmp(a, b) == 0\<close>\<close>

definition streq :: "cchar list \<Rightarrow> cchar list \<Rightarrow> bool" where
  "streq a b = (c_str a = c_str b)"

text \<open>
  The C library, in the "C" locale: \<open>isspace\<close> takes the character as an
  \<open>unsigned char\<close> value (the cast of line 99), and \<open>isdigit\<close> is the test \<open>strtol\<close>
  applies in base 10.
\<close>

definition isspace :: "int \<Rightarrow> bool" where
  "isspace n = (n = 32 \<or> (9 \<le> n \<and> n \<le> 13))"

definition isdigit :: "cchar \<Rightarrow> bool" where
  "isdigit c = (48 \<le> uint c \<and> uint c \<le> 57)"

fun digits_value :: "int \<Rightarrow> cchar list \<Rightarrow> int" where
  "digits_value acc [] = acc"
| "digits_value acc (d # ds) = digits_value (10 * acc + (uint d - 48)) ds"

text \<open>
  \<open>strtol(nptr, &endptr, 10)\<close> as the C standard describes it (7.22.1.4), for a
  64-bit \<open>long\<close>: white space is skipped, then comes an optional sign, then the longest
  run of digits. Without a digit nothing is converted: the value is 0 and \<open>endptr\<close> is
  \<open>nptr\<close>. A value that a \<open>long\<close> cannot hold becomes the nearest bound. The result is
  the value and the index \<open>endptr\<close> points to.
\<close>

definition strtol :: "cchar list \<Rightarrow> int \<times> nat" where
  "strtol nptr =
     (let s = c_str nptr;
          ws = takeWhile (\<lambda>c. isspace (uint c)) s;
          r = drop (length ws) s;
          minus = (r \<noteq> [] \<and> hd r = of_char CHR ''-'');
          sign = (if r \<noteq> [] \<and> (hd r = of_char CHR ''-'' \<or> hd r = of_char CHR ''+'')
                  then 1 else 0);
          ds = takeWhile isdigit (drop sign r);
          v = (if minus then - digits_value 0 ds else digits_value 0 ds)
      in if ds = [] then (0, 0)
         else (max (- (2 ^ 63)) (min (2 ^ 63 - 1) v), length ws + sign + length ds))"

text \<open>\<open>a % b\<close> on \<open>long\<close> operands.\<close>

definition c_rem_long :: "int \<Rightarrow> int \<Rightarrow> error + int" where
  "c_rem_long a b = (if b = 0 then Inl DivisionByZero
                     else if a = - (2 ^ 63) \<and> b = - 1 then Inl SignedOverflow
                     else Inr (a smod b))"

fun contains_whitespace :: "cchar list \<Rightarrow> bool" where
  "contains_whitespace [] = False"
| "contains_whitespace (c # str) =
     (if c = 0 then False
      else if isspace (uint c) then True
      else contains_whitespace str)"

fun validate_key_characters :: "cchar list \<Rightarrow> bool" where
  "validate_key_characters [] = True"
| "validate_key_characters (c # str) =
     (if c = 0 then True
      else if c <s RANGE_LOW \<or> RANGE_HIGH <s c then False
      else validate_key_characters str)"

definition quoted :: "string \<Rightarrow> cchar list" where
  "quoted s = 39 # bytes s @ [39]"

text \<open>
  The handlers return what they print; the buffer \<open>result_text\<close> is not read again
  after them.
\<close>

definition handle_vigenere ::
  "cchar list \<Rightarrow> cchar list \<Rightarrow> cchar list \<Rightarrow> cchar list \<Rightarrow> error + outcome"
where
  "handle_vigenere operation key_str message result_text =
     (if \<not> validate_key_characters key_str
      then Inr \<lparr>exit_status = 1, stdout = [],
                stderr = bytes ''Key characters must be in the range '' @ quoted ''A''
                           @ bytes ''->'' @ quoted ''Z'' @ [10]\<rparr>
      else case (if streq operation (bytes ''vigenere-encrypt'')
                 then vigenere_encrypt RANGE_LOW RANGE_HIGH key_str message result_text
                 else vigenere_decrypt RANGE_LOW RANGE_HIGH key_str message result_text) of
             Inl e \<Rightarrow> Inl e
           | Inr result_text' \<Rightarrow>
               Inr \<lparr>exit_status = 0, stdout = c_str result_text' @ [10], stderr = []\<rparr>)"

definition handle_caesar ::
  "cchar list \<Rightarrow> cchar list \<Rightarrow> cchar list \<Rightarrow> cchar list \<Rightarrow> error + outcome"
where
  "handle_caesar operation key_str message result_text =
     (case strtol key_str of
        (key_int, endptr) \<Rightarrow>
          (case load key_str endptr of
             Inl e \<Rightarrow> Inl e
           | Inr end_char \<Rightarrow>
               if end_char \<noteq> 0 \<or> contains_whitespace key_str
                  \<or> key_int < INT_MIN \<or> INT_MAX < key_int
               then Inr \<lparr>exit_status = 1, stdout = [],
                         stderr = bytes ''Please enter a valid integer key'' @ [10]\<rparr>
               else
                 (let range_size = sint RANGE_HIGH - sint RANGE_LOW + 1
                  in case c_rem_long key_int range_size of
                       Inl e \<Rightarrow> Inl e
                     | Inr r \<Rightarrow>
                         (case c_rem_long (r + range_size) range_size of
                            Inl e \<Rightarrow> Inl e
                          | Inr key_int' \<Rightarrow>
                              (case (if streq operation (bytes ''caesar-encrypt'')
                                     then caesar_encrypt RANGE_LOW RANGE_HIGH
                                            (word_of_int key_int') message result_text
                                     else caesar_decrypt RANGE_LOW RANGE_HIGH
                                            (word_of_int key_int') message result_text) of
                                 Inl e \<Rightarrow> Inl e
                               | Inr result_text' \<Rightarrow>
                                   Inr \<lparr>exit_status = 0, stdout = c_str result_text' @ [10],
                                        stderr = []\<rparr>)))))"

definition print_usage :: "cchar list \<Rightarrow> cchar list" where
  "print_usage program_name =
     bytes ''Usage: '' @ c_str program_name @ bytes '' <operation> <key> <message>'' @ [10]
     @ bytes ''Permitted operations: vigenere-encrypt, vigenere-decrypt, caesar-encrypt, caesar-decrypt''
     @ [10]"

text \<open>
  \<open>cli\<close>: \<open>argc\<close> is the number of entries of \<open>argv\<close>. Without any entry \<open>argv[0]\<close> is
  the null pointer, which the C library prints as \<open>(null)\<close>.
\<close>

definition program_name :: "cchar list list \<Rightarrow> cchar list" where
  "program_name argv = (case argv of [] \<Rightarrow> bytes ''(null)'' | p # _ \<Rightarrow> p)"

definition cli :: "cchar list list \<Rightarrow> error + outcome" where
  "cli argv =
     (if length argv \<noteq> 4
      then Inr \<lparr>exit_status = 1, stdout = [], stderr = print_usage (program_name argv)\<rparr>
      else
        (let operation = argv ! 1;
             key_str = argv ! 2;
             message = argv ! 3
         in if load key_str 0 = Inr 0 \<or> load message 0 = Inr 0
            then Inr \<lparr>exit_status = 1, stdout = [],
                      stderr = print_usage (program_name argv)\<rparr>
            else if 1024 \<le> strlen message
            then Inr \<lparr>exit_status = 1, stdout = [],
                      stderr = bytes ''Error: Message length exceeds maximum allowed size of 1023 characters''
                                 @ [10]\<rparr>
            else
              (let result_text = replicate 1024 0
               in if streq operation (bytes ''vigenere-encrypt'')
                     \<or> streq operation (bytes ''vigenere-decrypt'')
                  then handle_vigenere operation key_str message result_text
                  else if streq operation (bytes ''caesar-encrypt'')
                          \<or> streq operation (bytes ''caesar-decrypt'')
                  then handle_caesar operation key_str message result_text
                  else Inr \<lparr>exit_status = 1, stdout = [],
                            stderr = bytes ''Invalid operation: '' @ c_str operation @ [10]
                                       @ print_usage (program_name argv)\<rparr>)))"

section \<open>The transforms as the specification words them\<close>

text \<open>
  Section 4.1 of the specification: the key is normalised with a modulo of non-negative
  result (\<open>mod\<close> on the integers), and a symbol of the range moves by the normalised key
  within the range.
\<close>

definition normalized_key :: "int \<Rightarrow> int \<Rightarrow> int" where
  "normalized_key key range_size = ((key mod range_size) + range_size) mod range_size"

definition shift_symbol :: "cchar \<Rightarrow> cchar \<Rightarrow> int \<Rightarrow> cchar \<Rightarrow> cchar" where
  "shift_symbol range_low range_high key c =
     (let range_size = sint range_high - sint range_low + 1
      in if in_range range_low range_high c
         then word_of_int (sint range_low +
                (sint c - sint range_low + normalized_key key range_size) mod range_size)
         else c)"

definition shift_encrypt :: "cchar \<Rightarrow> cchar \<Rightarrow> int \<Rightarrow> cchar list \<Rightarrow> cchar list" where
  "shift_encrypt range_low range_high key input = map (shift_symbol range_low range_high key) input"

definition shift_decrypt :: "cchar \<Rightarrow> cchar \<Rightarrow> int \<Rightarrow> cchar list \<Rightarrow> cchar list" where
  "shift_decrypt range_low range_high key input = shift_encrypt range_low range_high (- key) input"

text \<open>
  Section 4.2: a cyclic index into the keyword, which starts at 0 and moves on after each
  symbol of the range; the symbol is transformed alone, by the offset of the keyword's
  current symbol. \<open>single\<close> is the transform of one symbol by an offset.
\<close>

fun poly_from ::
  "(int \<Rightarrow> cchar \<Rightarrow> cchar) \<Rightarrow> cchar \<Rightarrow> cchar \<Rightarrow> cchar list \<Rightarrow> nat \<Rightarrow> cchar list \<Rightarrow> cchar list"
where
  "poly_from single range_low range_high keyword k_idx [] = []"
| "poly_from single range_low range_high keyword k_idx (c # input) =
     (if in_range range_low range_high c
      then single (sint (keyword ! k_idx) - sint range_low) c
             # poly_from single range_low range_high keyword
                 ((k_idx + 1) mod length keyword) input
      else c # poly_from single range_low range_high keyword k_idx input)"

definition poly_encrypt :: "cchar \<Rightarrow> cchar \<Rightarrow> cchar list \<Rightarrow> cchar list \<Rightarrow> cchar list" where
  "poly_encrypt range_low range_high keyword input =
     poly_from (\<lambda>offset c. hd (shift_encrypt range_low range_high offset [c]))
       range_low range_high keyword 0 input"

definition poly_decrypt :: "cchar \<Rightarrow> cchar \<Rightarrow> cchar list \<Rightarrow> cchar list \<Rightarrow> cchar list" where
  "poly_decrypt range_low range_high keyword input =
     poly_from (\<lambda>offset c. hd (shift_decrypt range_low range_high offset [c]))
       range_low range_high keyword 0 input"

text \<open>
  Section 4.3: a decimal integer token is an optional sign and then digits, at least one,
  with nothing in front, between or behind; its value is the number it writes.
\<close>

definition is_sign :: "cchar \<Rightarrow> bool" where
  "is_sign c = (c = of_char CHR ''+'' \<or> c = of_char CHR ''-'')"

definition token_digits :: "cchar list \<Rightarrow> cchar list" where
  "token_digits s = (case s of [] \<Rightarrow> [] | c # r \<Rightarrow> if is_sign c then r else s)"

definition decimal_token :: "cchar list \<Rightarrow> bool" where
  "decimal_token s = (token_digits s \<noteq> [] \<and> list_all isdigit (token_digits s))"

definition token_value :: "cchar list \<Rightarrow> int" where
  "token_value s =
     (let n = foldl (\<lambda>a d. 10 * a + (uint d - 48)) 0 (token_digits s)
      in if s \<noteq> [] \<and> hd s = of_char CHR ''-'' then - n else n)"

definition valid_int_key :: "cchar list \<Rightarrow> bool" where
  "valid_int_key s = (decimal_token s \<and> INT_MIN \<le> token_value s \<and> token_value s \<le> INT_MAX)"

definition valid_keyword :: "cchar \<Rightarrow> cchar \<Rightarrow> cchar list \<Rightarrow> bool" where
  "valid_keyword range_low range_high s = (s \<noteq> [] \<and> list_all (in_range range_low range_high) s)"

section \<open>What the transforms compute\<close>

lemma normalized_key_mod: "0 < rs \<Longrightarrow> normalized_key k rs = k mod rs"
  by (simp add: normalized_key_def)

lemma smod_renorm: "0 < (rs::int) \<Longrightarrow> (k smod rs + rs) smod rs = k mod rs"
proof -
  assume rs: "0 < rs"
  have a: "k smod rs = k mod rs - rs * of_bool (sgn k \<noteq> sgn rs \<and> \<not> rs dvd k)"
    by (rule signed_modulo_int_eq_modulo_int)
  have b: "- rs < k smod rs" "k smod rs < rs"
    using smod_int_range [of rs k] rs by auto
  have "(k smod rs + rs) smod rs = (k smod rs + rs) mod rs"
    using b rs by (intro smod_mod_positive) auto
  also have "\<dots> = k mod rs" unfolding a by (simp add: mod_diff_eq)
  finally show ?thesis .
qed

lemma c_rem_pos: "0 < b \<Longrightarrow> c_rem a b = Inr (a smod b)"
  by (simp add: c_rem_def)

lemma caesar_char_eq:
  assumes "sint lo < sint hi" 
  shows "caesar_char lo hi (k mod (sint hi - sint lo + 1)) (sint hi - sint lo + 1) c = Inr (shift_symbol lo hi k c)"
proof -
  let ?rs = "sint hi - sint lo + 1"
  have rs: "0 < ?rs" using assms by simp
  show ?thesis
  proof (cases "in_range lo hi c")
    case False
    then show ?thesis by (auto simp add: caesar_char_def shift_symbol_def in_range_def Let_def)
  next
    case True
    then have c: "sint lo \<le> sint c" "sint c \<le> sint hi"
      by (simp_all add: in_range_def word_sle_eq)
    have nn: "0 \<le> sint c - sint lo + k mod ?rs" using c rs by simp
    have "(sint c - sint lo + k mod ?rs) smod ?rs = (sint c - sint lo + k mod ?rs) mod ?rs"
      using nn rs by (intro smod_mod_positive) auto
    moreover have "0 \<le> (sint c - sint lo + k mod ?rs) mod ?rs" using rs by simp
    ultimately show ?thesis using True rs
      by (simp add: caesar_char_def shift_symbol_def in_range_def c_rem_pos normalized_key_mod Let_def mod_simps)
  qed
qed

lemma caesar_loop_eq:
  assumes f: "\<And>c. caesar_char lo hi key rs c = Inr (f c)"
  shows "i \<le> len \<Longrightarrow> len \<le> length pt \<Longrightarrow> len \<le> length ct \<Longrightarrow>
    caesar_loop lo hi key rs pt len i ct = Inr (take i ct @ map f (drop i (take len pt)) @ drop len ct)"
proof (induction "len - i" arbitrary: i ct)
  case 0
  then show ?case by (simp add: caesar_loop.simps)
next
  case (Suc n)
  then have lt: "i < len" by simp
  let ?ct = "ct[i := f (pt ! i)]"
  have st: "store ct i (f (pt ! i)) = Inr ?ct"
    using lt Suc.prems by (simp add: store_def)
  have IH: "caesar_loop lo hi key rs pt len (Suc i) ?ct =
        Inr (take (Suc i) ?ct @ map f (drop (Suc i) (take len pt)) @ drop len ?ct)"
    using Suc.hyps(1)[of "Suc i" ?ct] Suc.hyps(2) lt Suc.prems by simp
  have d: "drop i (take len pt) = pt ! i # drop (Suc i) (take len pt)"
    using lt Suc.prems by (simp add: Cons_nth_drop_Suc [symmetric])
  have t: "take (Suc i) ?ct = take i ct @ [f (pt ! i)]"
    using lt Suc.prems by (simp add: take_Suc_conv_app_nth)
  have dr: "drop len ?ct = drop len ct" using lt by simp
  show ?case
    apply (subst caesar_loop.simps)
    using lt by (simp add: f st IH d t dr)
qed

lemma caesar_encrypt_eq:
  assumes "sint lo < sint hi" "strlen pt < length ct"
  shows "caesar_encrypt lo hi key pt ct =
    Inr (map (shift_symbol lo hi (sint key)) (c_str pt) @ 0 # drop (Suc (strlen pt)) ct)"
proof -
  let ?rs = "sint hi - sint lo + 1"
  let ?f = "shift_symbol lo hi (sint key)"
  have rs: "0 < ?rs" using assms by simp
  have len: "strlen pt \<le> length pt" by (simp add: strlen_def length_takeWhile_le)
  have tk: "take (strlen pt) pt = c_str pt"
    by (simp add: strlen_def c_str_def takeWhile_eq_take [symmetric])
  have loop: "caesar_loop lo hi (sint key mod ?rs) ?rs pt (strlen pt) 0 ct =
      Inr (map ?f (c_str pt) @ drop (strlen pt) ct)"
    using caesar_loop_eq [of lo hi "sint key mod ?rs" ?rs ?f 0 "strlen pt" pt ct]
      caesar_char_eq [OF assms(1)] len assms(2) by (simp add: tk)
  have l2: "length (map ?f (c_str pt)) = strlen pt" by (simp add: strlen_def c_str_def)
  have st: "store (map ?f (c_str pt) @ drop (strlen pt) ct) (strlen pt) 0 =
      Inr (map ?f (c_str pt) @ 0 # drop (Suc (strlen pt)) ct)"
  proof -
    have "drop (strlen pt) ct = ct ! strlen pt # drop (Suc (strlen pt)) ct"
      using assms(2) by (simp add: Cons_nth_drop_Suc)
    then show ?thesis using assms(2) l2
      by (simp add: store_def list_update_append del: length_map)
  qed
  show ?thesis
    by (simp add: caesar_encrypt_def Let_def c_rem_pos [OF rs] smod_renorm [OF rs] loop st)
qed


text \<open>
  The arithmetic of \<open>caesar_encrypt\<close> stays far inside \<open>int\<close>: the size of a range is at
  most 256, and so are the normalised key and the offset of a symbol.
\<close>

lemma caesar_arithmetic_fits:
  fixes lo hi c :: cchar and key :: cint
  assumes "sint lo < sint hi"
  shows "sint hi - sint lo + 1 \<le> 256"
    and "\<bar>sint key smod (sint hi - sint lo + 1) + (sint hi - sint lo + 1)\<bar> < 512"
    and "in_range lo hi c \<Longrightarrow>
           \<bar>sint c - sint lo + sint key mod (sint hi - sint lo + 1)\<bar> < 512"
proof -
  let ?rs = "sint hi - sint lo + 1"
  have b: "- 128 \<le> sint lo" "sint hi \<le> 127" "- 128 \<le> sint c" "sint c \<le> 127"
    using sint_ge [of lo] sint_lt [of hi] sint_ge [of c] sint_lt [of c] by simp_all
  show rs: "?rs \<le> 256" using b by simp
  have pos: "0 < ?rs" using assms by simp
  have "sint key smod ?rs \<in> {- \<bar>?rs\<bar> + 1..\<bar>?rs\<bar> - 1}"
    using pos by (intro smod_int_range) simp
  then show "\<bar>sint key smod ?rs + ?rs\<bar> < 512" using rs pos by auto
  have "0 \<le> sint key mod ?rs" "sint key mod ?rs < ?rs"
    using pos_mod_sign [OF pos, of "sint key"] pos_mod_bound [OF pos, of "sint key"] by linarith+
  then show "\<bar>sint c - sint lo + sint key mod ?rs\<bar> < 512" if "in_range lo hi c"
    using that rs b by (auto simp add: in_range_def word_sle_eq)
qed

lemma strlen_le: "strlen s \<le> length s"
  by (simp add: strlen_def length_takeWhile_le)

lemma length_c_str: "length (c_str s) = strlen s"
  by (simp add: strlen_def c_str_def)

lemma c_str_drop: "i \<le> strlen s \<Longrightarrow> c_str (drop i s) = drop i (c_str s)"
proof (induction s arbitrary: i)
  case Nil
  then show ?case by (simp add: c_str_def)
next
  case (Cons x xs)
  show ?case
  proof (cases i)
    case 0
    then show ?thesis by simp
  next
    case (Suc j)
    with Cons.prems have x: "x \<noteq> 0" and j: "j \<le> strlen xs"
      by (auto simp: strlen_def split: if_splits)
    show ?thesis using Suc x Cons.IH [OF j] by (simp add: c_str_def)
  qed
qed

lemma strlen_drop: "i \<le> strlen s \<Longrightarrow> strlen (drop i s) = strlen s - i"
  using c_str_drop [of i s] length_c_str [of "drop i s"] by (simp add: length_c_str)

lemma c_str_nth: "i < strlen s \<Longrightarrow> c_str s ! i = s ! i"
  by (simp add: strlen_def c_str_def takeWhile_nth)

lemma c_str_Cons_drop: "i < strlen s \<Longrightarrow> drop i (c_str s) = s ! i # drop (Suc i) (c_str s)"
  using Cons_nth_drop_Suc [of i "c_str s"] by (simp add: length_c_str c_str_nth)

lemma sint_small_key: "- 256 < k \<Longrightarrow> k < 256 \<Longrightarrow> sint (word_of_int k :: cint) = k"
  by (simp add: sint_sbintrunc' signed_take_bit_int_eq_self)

lemma sint_uminus_cint: "sint (key :: cint) \<noteq> - (2 ^ 31) \<Longrightarrow> sint (- key) = - sint key"
proof -
  assume a: "sint key \<noteq> - (2 ^ 31)"
  have "- (2 ^ 31) \<le> sint key" "sint key < 2 ^ 31"
    using sint_ge [of key] sint_lt [of key] by simp_all
  with a have "- (2 ^ 31) \<le> - sint key" "- sint key < 2 ^ 31" by simp_all
  then show ?thesis by (simp add: sint_word_minus signed_take_bit_int_eq_self)
qed

lemma caesar_decrypt_eq:
  assumes "sint lo < sint hi" "strlen pt < length ct" "sint key \<noteq> - (2 ^ 31)"
  shows "caesar_decrypt lo hi key pt ct =
    Inr (map (shift_symbol lo hi (- sint key)) (c_str pt) @ 0 # drop (Suc (strlen pt)) ct)"
  using assms caesar_encrypt_eq [OF assms(1,2), of "- key"]
  by (simp add: caesar_decrypt_def sint_uminus_cint)

lemma char_diff_small: "- 256 < sint (a :: cchar) - sint (b :: cchar)" "sint a - sint b < 256"
  using sint_ge [of a] sint_lt [of a] sint_ge [of b] sint_lt [of b] by simp_all

lemma vigenere_loop_eq:
  assumes C: "\<And>k pt ct. - 256 < k \<Longrightarrow> k < 256 \<Longrightarrow> strlen pt < length ct \<Longrightarrow>
      caesar lo hi (word_of_int k) pt ct
        = Inr (map (single k) (c_str pt) @ 0 # drop (Suc (strlen pt)) ct)"
    and len: "strlen text < length out"
  shows "i \<le> strlen text \<Longrightarrow> index < strlen key \<Longrightarrow> length out' = length out \<Longrightarrow>
    \<exists>x. vigenere_loop caesar lo hi key (strlen key) text (strlen text) i index out' =
      Inr (take i out' @ poly_from single lo hi (c_str key) index (drop i (c_str text))
             @ x # drop (Suc (strlen text)) out')"
proof (induction "strlen text - i" arbitrary: i index out')
  case 0
  then have i: "i = strlen text" by simp
  have "drop (strlen text) out' = out' ! strlen text # drop (Suc (strlen text)) out'"
    using len 0 by (simp add: Cons_nth_drop_Suc)
  then have "out' = take (strlen text) out' @ out' ! strlen text # drop (Suc (strlen text)) out'"
    by (metis append_take_drop_id)
  then show ?case
    apply (subst vigenere_loop.simps)
    using i by (auto simp add: length_c_str)
next
  case (Suc n)
  let ?len = "strlen text"
  let ?kw = "c_str key"
  from Suc have lt: "i < ?len" by simp
  have n: "n = ?len - Suc i" using Suc.hyps(2) by simp
  have si: "Suc i \<le> ?len" using lt by simp
  have lo': "i < length out'" using lt len Suc.prems by simp
  let ?c = "text ! i"
  have dC: "drop i (c_str text) = ?c # drop (Suc i) (c_str text)"
    using lt by (rule c_str_Cons_drop)
  show ?case
  proof (cases "in_range lo hi ?c")
    case False
    let ?o = "out'[i := ?c]"
    have body: "vigenere_body caesar lo hi key (strlen key) text i index out' = Inr (index, ?o)"
      using False lo' by (auto simp add: vigenere_body_def in_range_def store_def Let_def)
    obtain x where IH: "vigenere_loop caesar lo hi key (strlen key) text ?len (Suc i) index ?o =
        Inr (take (Suc i) ?o @ poly_from single lo hi ?kw index (drop (Suc i) (c_str text))
               @ x # drop (Suc ?len) ?o)"
      using Suc.hyps(1) [OF n si Suc.prems(2), of ?o] Suc.prems(3) by auto
    have t: "take (Suc i) ?o = take i out' @ [?c]"
      using lo' by (simp add: take_Suc_conv_app_nth)
    have d: "drop (Suc ?len) ?o = drop (Suc ?len) out'" using lt by simp
    have step: "vigenere_loop caesar lo hi key (strlen key) text ?len i index out' =
        vigenere_loop caesar lo hi key (strlen key) text ?len (Suc i) index ?o"
      by (subst vigenere_loop.simps) (simp only: lt if_True body sum.case prod.case)
    have p: "poly_from single lo hi ?kw index (drop i (c_str text)) =
        ?c # poly_from single lo hi ?kw index (drop (Suc i) (c_str text))"
      using False by (simp add: dC)
    show ?thesis unfolding step IH t d p by simp
  next
    case True
    let ?k = "sint (key ! index) - sint lo"
    let ?rest = "map (single ?k) (c_str (drop i text)) @ 0 # drop (Suc (strlen (drop i text))) (drop i out')"
    let ?o = "take i out' @ ?rest"
    let ?ix = "(index + 1) mod strlen key"
    have ld: "load key index = Inr (key ! index)"
      using Suc.prems(2) strlen_le [of key] by (simp add: load_def)
    have sl: "strlen (drop i text) = ?len - i" using lt by (simp add: strlen_drop)
    have cs: "c_str (drop i text) = ?c # drop (Suc i) (c_str text)"
      using lt dC by (simp add: c_str_drop)
    have room: "strlen (drop i text) < length (drop i out')"
      using sl len lt Suc.prems by simp
    have cz: "caesar lo hi (word_of_int ?k) (drop i text) (drop i out') = Inr ?rest"
      using C [OF char_diff_small room] .
    have body: "vigenere_body caesar lo hi key (strlen key) text i index out' = Inr (?ix, ?o)"
    proof -
      have "lo \<le>s ?c \<and> ?c \<le>s hi" using True by (simp add: in_range_def)
      moreover have "strlen key \<noteq> 0" using Suc.prems(2) by simp
      ultimately show ?thesis
        by (simp only: vigenere_body_def Let_def ld sum.case cz if_True if_False simp_thms)
    qed
    have lo2: "length ?o = length out"
      using sl len lt Suc.prems lo'
      by (simp add: length_c_str c_str_drop)
    have ixlt: "?ix < strlen key" using Suc.prems(2) by simp
    obtain x where IH: "vigenere_loop caesar lo hi key (strlen key) text ?len (Suc i) ?ix ?o =
        Inr (take (Suc i) ?o @ poly_from single lo hi ?kw ?ix (drop (Suc i) (c_str text))
               @ x # drop (Suc ?len) ?o)"
      using Suc.hyps(1) [OF n si ixlt lo2] by auto
    have t: "take (Suc i) ?o = take i out' @ [single ?k ?c]"
      using lo' by (simp add: cs)
    have d: "drop (Suc ?len) ?o = drop (Suc ?len) out'"
      using lo' lt sl by (simp add: cs length_c_str Suc_diff_le)
    have kw: "?kw ! index = key ! index" using Suc.prems(2) by (rule c_str_nth)
    have step: "vigenere_loop caesar lo hi key (strlen key) text ?len i index out' =
        vigenere_loop caesar lo hi key (strlen key) text ?len (Suc i) ?ix ?o"
      by (subst vigenere_loop.simps) (simp only: lt if_True body sum.case prod.case)
    have p: "poly_from single lo hi ?kw index (drop i (c_str text)) =
        single ?k ?c # poly_from single lo hi ?kw ?ix (drop (Suc i) (c_str text))"
      using True by (simp add: dC kw length_c_str)
    show ?thesis unfolding step IH t d p by simp
  qed
qed

lemma length_poly_from: "length (poly_from single lo hi kw idx m) = length m"
  by (induction m arbitrary: idx) simp_all

lemma store_at_end:
  "length p = n \<Longrightarrow> store (p @ x # d) n c = Inr (p @ c # d)"
  by (auto simp add: store_def list_update_append)

lemma vigenere_eq:
  assumes C: "\<And>k pt ct. - 256 < k \<Longrightarrow> k < 256 \<Longrightarrow> strlen pt < length ct \<Longrightarrow>
      caesar lo hi (word_of_int k) pt ct
        = Inr (map (single k) (c_str pt) @ 0 # drop (Suc (strlen pt)) ct)"
    and len: "strlen text < length out" and key: "0 < strlen key"
  shows "vigenere caesar lo hi key text out =
      Inr (poly_from single lo hi (c_str key) 0 (c_str text) @ 0 # drop (Suc (strlen text)) out)"
proof -
  obtain x where loop: "vigenere_loop caesar lo hi key (strlen key) text (strlen text) 0 0 out =
      Inr (poly_from single lo hi (c_str key) 0 (c_str text) @ x # drop (Suc (strlen text)) out)"
    using vigenere_loop_eq [where caesar = caesar and single = single and i = 0 and index = 0
        and out' = out and key = key, OF C len] key by auto
  have l: "length (poly_from single lo hi (c_str key) 0 (c_str text)) = strlen text"
    by (simp add: length_poly_from length_c_str)
  show ?thesis
    by (simp add: vigenere_def Let_def loop store_at_end [OF l])
qed

lemma vigenere_encrypt_eq:
  assumes "sint lo < sint hi" "strlen pt < length ct" "0 < strlen key"
  shows "vigenere_encrypt lo hi key pt ct =
      Inr (poly_encrypt lo hi (c_str key) (c_str pt) @ 0 # drop (Suc (strlen pt)) ct)"
proof -
  have C: "caesar_encrypt lo hi (word_of_int k) p c
        = Inr (map (shift_symbol lo hi k) (c_str p) @ 0 # drop (Suc (strlen p)) c)"
    if "- 256 < k" "k < 256" "strlen p < length c" for k p c
    using caesar_encrypt_eq [OF assms(1) that(3), of "word_of_int k"] that(1,2)
    by (simp only: sint_small_key)
  have s: "(\<lambda>offset c. hd (shift_encrypt lo hi offset [c])) = shift_symbol lo hi"
    by (simp add: shift_encrypt_def fun_eq_iff)
  show ?thesis
    unfolding vigenere_encrypt_def poly_encrypt_def s
    by (rule vigenere_eq [where caesar = caesar_encrypt and single = "shift_symbol lo hi",
          OF C assms(2,3)])
qed

lemma vigenere_decrypt_eq:
  assumes "sint lo < sint hi" "strlen ct < length pt" "0 < strlen key"
  shows "vigenere_decrypt lo hi key ct pt =
      Inr (poly_decrypt lo hi (c_str key) (c_str ct) @ 0 # drop (Suc (strlen ct)) pt)"
proof -
  have C: "caesar_decrypt lo hi (word_of_int k) p c
        = Inr (map (\<lambda>x. shift_symbol lo hi (- k) x) (c_str p) @ 0 # drop (Suc (strlen p)) c)"
    if "- 256 < k" "k < 256" "strlen p < length c" for k p c
  proof -
    have "sint (word_of_int k :: cint) = k" using that(1,2) by (rule sint_small_key)
    moreover from this have "sint (word_of_int k :: cint) \<noteq> - (2 ^ 31)" using that(1) by simp
    ultimately show ?thesis
      using caesar_decrypt_eq [OF assms(1) that(3), of "word_of_int k"] by simp
  qed
  have s: "(\<lambda>offset c. hd (shift_decrypt lo hi offset [c])) = (\<lambda>k. shift_symbol lo hi (- k))"
    by (simp add: shift_decrypt_def shift_encrypt_def fun_eq_iff)
  show ?thesis
    unfolding vigenere_decrypt_def poly_decrypt_def s
    by (rule vigenere_eq [where caesar = caesar_decrypt
          and single = "\<lambda>k. shift_symbol lo hi (- k)", OF C assms(2,3)])
qed

lemma sint_in_range_char:
  assumes "sint (lo :: cchar) \<le> x" "x \<le> sint (hi :: cchar)"
  shows "sint (word_of_int x :: cchar) = x"
proof -
  have "- (2 ^ 7) \<le> x" "x < 2 ^ 7"
    using assms sint_ge [of lo] sint_lt [of hi] by simp_all
  then show ?thesis by (simp add: sint_sbintrunc' signed_take_bit_int_eq_self)
qed

lemma shift_symbol_out: "\<not> in_range lo hi c \<Longrightarrow> shift_symbol lo hi k c = c"
  by (simp add: shift_symbol_def)

lemma shift_symbol_sint:
  assumes "sint lo < sint hi" "in_range lo hi c"
  shows "sint (shift_symbol lo hi k c) = sint lo + (sint c - sint lo + k) mod (sint hi - sint lo + 1)"
proof -
  let ?rs = "sint hi - sint lo + 1"
  let ?v = "(sint c - sint lo + k) mod ?rs"
  have rs: "0 < ?rs" using assms by simp
  have v: "0 \<le> ?v" "?v \<le> sint hi - sint lo"
    using pos_mod_sign [OF rs, of "sint c - sint lo + k"]
      pos_mod_bound [OF rs, of "sint c - sint lo + k"] by linarith+
  have e: "shift_symbol lo hi k c = word_of_int (sint lo + ?v)"
    using assms(2) rs by (simp add: shift_symbol_def normalized_key_mod Let_def mod_simps)
  show ?thesis unfolding e
    by (rule sint_in_range_char [of lo _ hi]) (use v in simp_all)
qed

lemma shift_symbol_in_range:
  assumes "sint lo < sint hi" "in_range lo hi c"
  shows "in_range lo hi (shift_symbol lo hi k c)"
proof -
  let ?rs = "sint hi - sint lo + 1"
  have rs: "0 < ?rs" using assms by simp
  have v: "0 \<le> (sint c - sint lo + k) mod ?rs" "(sint c - sint lo + k) mod ?rs \<le> sint hi - sint lo"
    using pos_mod_sign [OF rs, of "sint c - sint lo + k"]
      pos_mod_bound [OF rs, of "sint c - sint lo + k"] by linarith+
  then show ?thesis
    unfolding in_range_def word_sle_eq shift_symbol_sint [OF assms] by linarith
qed

lemma shift_symbol_inverse:
  assumes "sint lo < sint hi"
  shows "shift_symbol lo hi (- k) (shift_symbol lo hi k c) = c"
proof (cases "in_range lo hi c")
  case False
  then show ?thesis by (simp add: shift_symbol_out)
next
  case True
  let ?rs = "sint hi - sint lo + 1"
  let ?c' = "shift_symbol lo hi k c"
  have rs: "0 < ?rs" using assms by simp
  have c: "0 \<le> sint c - sint lo" "sint c - sint lo < ?rs"
    using True by (simp_all add: in_range_def word_sle_eq)
  have r': "in_range lo hi ?c'" using assms True by (rule shift_symbol_in_range)
  have "sint (shift_symbol lo hi (- k) ?c') = sint lo + (sint ?c' - sint lo + - k) mod ?rs"
    using assms r' by (rule shift_symbol_sint)
  also have "sint ?c' - sint lo + - k = (sint c - sint lo + k) mod ?rs - k"
    by (simp add: shift_symbol_sint [OF assms True])
  also have "((sint c - sint lo + k) mod ?rs - k) mod ?rs = (sint c - sint lo) mod ?rs"
    by (simp add: mod_diff_left_eq)
  also have "\<dots> = sint c - sint lo" using c by simp
  finally have "sint (shift_symbol lo hi (- k) ?c') = sint c" by simp
  then show ?thesis by (rule signed_word_eqI)
qed

lemma shift_symbol_inverse':
  assumes "sint lo < sint hi"
  shows "shift_symbol lo hi k (shift_symbol lo hi (- k) c) = c"
  using shift_symbol_inverse [OF assms, of "- k" c] by simp

lemma shift_symbol_range_iff:
  "sint lo < sint hi \<Longrightarrow> in_range lo hi (shift_symbol lo hi k c) = in_range lo hi c"
  by (cases "in_range lo hi c") (simp_all add: shift_symbol_in_range shift_symbol_out)

lemma poly_round_trip:
  assumes "sint lo < sint hi"
  shows "poly_from (\<lambda>k. shift_symbol lo hi (- k)) lo hi kw idx
            (poly_from (shift_symbol lo hi) lo hi kw idx m) = m"
proof -
  have inv: "shift_symbol lo hi (b - a) (shift_symbol lo hi (a - b) c) = c" for a b c
    using shift_symbol_inverse [OF assms, of "a - b" c] by simp
  show ?thesis
    by (induction m arbitrary: idx) (simp_all add: shift_symbol_range_iff [OF assms] inv)
qed

lemma caesar_encrypt_norm:
  assumes "sint lo < sint hi"
  shows "caesar_encrypt lo hi key pt ct =
    (case caesar_loop lo hi (sint key mod (sint hi - sint lo + 1)) (sint hi - sint lo + 1) pt
            (strlen pt) 0 ct of
       Inl e \<Rightarrow> Inl e
     | Inr c \<Rightarrow> store c (strlen pt) 0)"
proof -
  have rs: "0 < sint hi - sint lo + 1" using assms by simp
  show ?thesis
    by (simp add: caesar_encrypt_def Let_def c_rem_pos [OF rs] smod_renorm [OF rs])
qed

lemma nth_written: "i < length p \<Longrightarrow> (p @ x # d) ! i = p ! i"
  by (simp add: nth_append)

lemma nth_terminator: "length p = n \<Longrightarrow> (p @ x # d) ! n = x"
  by (auto simp add: nth_append)

lemma drop_rest: "length p = n \<Longrightarrow> drop (Suc n) (p @ x # d) = d"
  by auto

lemma length_written:
  "length p = n \<Longrightarrow> n < length buf \<Longrightarrow> length (p @ x # drop (Suc n) buf) = length buf"
  by auto

lemma zero_notin_c_str: "0 \<notin> set (c_str s)"
  unfolding c_str_def by (induction s) auto

lemma c_str_written: "0 \<notin> set p \<Longrightarrow> c_str (p @ 0 # d) = p"
  unfolding c_str_def by (induction p) auto

lemma strlen_written: "0 \<notin> set p \<Longrightarrow> strlen (p @ 0 # d) = length p"
  using c_str_written [of p d] length_c_str [of "p @ 0 # d"] by simp

lemma shift_symbol_nonzero:
  assumes "sint lo < sint hi" "\<not> in_range lo hi 0" "c \<noteq> 0"
  shows "shift_symbol lo hi k c \<noteq> 0"
proof (cases "in_range lo hi c")
  case True
  then have "in_range lo hi (shift_symbol lo hi k c)" using assms(1) by (simp add: shift_symbol_in_range)
  then show ?thesis using assms(2) by auto
next
  case False
  then show ?thesis using assms(3) by (simp add: shift_symbol_out)
qed

lemma poly_from_nonzero:
  assumes "\<And>k c. c \<noteq> 0 \<Longrightarrow> single k c \<noteq> 0"
  shows "0 \<notin> set m \<Longrightarrow> 0 \<notin> set (poly_from single lo hi kw idx m)"
  by (induction m arbitrary: idx) (auto dest: assms)

lemma poly_from_nth_in:
  assumes "\<And>k c. in_range lo hi c \<Longrightarrow> in_range lo hi (single k c)"
  shows "i < length m \<Longrightarrow> in_range lo hi (m ! i) \<Longrightarrow>
         in_range lo hi (poly_from single lo hi kw idx m ! i)"
proof (induction m arbitrary: idx i)
  case Nil
  then show ?case by simp
next
  case (Cons c m)
  show ?case
  proof (cases i)
    case 0
    with Cons.prems show ?thesis by (simp add: assms)
  next
    case (Suc j)
    with Cons.prems Cons.IH [of j] show ?thesis by simp
  qed
qed

lemma poly_from_nth_out:
  "i < length m \<Longrightarrow> \<not> in_range lo hi (m ! i) \<Longrightarrow> poly_from single lo hi kw idx m ! i = m ! i"
proof (induction m arbitrary: idx i)
  case Nil
  then show ?case by simp
next
  case (Cons c m)
  show ?case
  proof (cases i)
    case 0
    with Cons.prems show ?thesis by simp
  next
    case (Suc j)
    with Cons.prems Cons.IH [of j] show ?thesis by simp
  qed
qed

lemma poly_encrypt_alt:
  "poly_encrypt lo hi kw m = poly_from (shift_symbol lo hi) lo hi kw 0 m"
  by (simp add: poly_encrypt_def shift_encrypt_def)

lemma poly_decrypt_alt:
  "poly_decrypt lo hi kw m = poly_from (\<lambda>k. shift_symbol lo hi (- k)) lo hi kw 0 m"
  by (simp add: poly_decrypt_def shift_decrypt_def shift_encrypt_def)

lemma length_poly_encrypt: "length (poly_encrypt lo hi kw m) = length m"
  by (simp add: poly_encrypt_alt length_poly_from)

lemma length_poly_decrypt: "length (poly_decrypt lo hi kw m) = length m"
  by (simp add: poly_decrypt_alt length_poly_from)

lemma normalized_shift:
  assumes "0 < rs"
  shows "(a + normalized_key k rs) mod rs = (a + k) mod rs"
  by (simp add: normalized_key_mod [OF assms] mod_simps)

lemma vigenere_body_out:
  assumes "\<not> in_range lo hi (text ! i)" "i < length buf"
  shows "vigenere_body caesar lo hi key klen text i index buf = Inr (index, buf[i := text ! i])"
  using assms by (auto simp add: vigenere_body_def in_range_def store_def Let_def)

section \<open>Claims about the Caesar cipher\<close>

text \<open>
  C3. With \<open>range_high > range_low\<close> and room in the output buffer, \<open>caesar_encrypt\<close>
  returns, and it has written at each position \<open>i\<close> of the input: for a symbol of the
  range the symbol \<open>range_low + ((input[i] - range_low + normalized_key) mod range_size)\<close>,
  which the cast to \<open>char\<close> does not change, and otherwise \<open>input[i]\<close>; then the
  terminator; the rest of the buffer is as it was. With the range \<open>A\<close> to \<open>Z\<close> and the
  key 3, \<open>HELLOWORLD\<close> becomes \<open>KHOORZRUOG\<close>.
\<close>

theorem caesar_encrypt_symbols:
  assumes "sint range_low < sint range_high" and "strlen input < length output"
  shows "(\<exists>out'. caesar_encrypt range_low range_high key input output = Inr out'
            \<and> length out' = length output
            \<and> (\<forall>i < strlen input.
                  (in_range range_low range_high (input ! i) \<longrightarrow>
                     sint (out' ! i) = sint range_low +
                       (sint (input ! i) - sint range_low
                          + normalized_key (sint key) (sint range_high - sint range_low + 1))
                        mod (sint range_high - sint range_low + 1))
                  \<and> (\<not> in_range range_low range_high (input ! i) \<longrightarrow> out' ! i = input ! i))
            \<and> out' ! strlen input = 0
            \<and> drop (Suc (strlen input)) out' = drop (Suc (strlen input)) output)
         \<and> caesar_encrypt (of_char CHR ''A'') (of_char CHR ''Z'') 3 (bytes ''HELLOWORLD'')
               (replicate 11 0) = Inr (bytes ''KHOORZRUOG'' @ [0])"
proof (rule conjI)
  let ?f = "shift_symbol range_low range_high (sint key)"
  let ?p = "map ?f (c_str input)"
  let ?out = "?p @ 0 # drop (Suc (strlen input)) output"
  have rs: "0 < sint range_high - sint range_low + 1" using assms(1) by simp
  have l: "length ?p = strlen input" by (simp add: length_c_str)
  have e: "caesar_encrypt range_low range_high key input output = Inr ?out"
    using assms by (rule caesar_encrypt_eq)
  have n: "?out ! i = ?f (input ! i)" if "i < strlen input" for i
    using that by (simp add: nth_written length_c_str c_str_nth)
  have a: "sint (?out ! i) = sint range_low +
             (sint (input ! i) - sint range_low
                + normalized_key (sint key) (sint range_high - sint range_low + 1))
              mod (sint range_high - sint range_low + 1)"
    if "i < strlen input" "in_range range_low range_high (input ! i)" for i
    using that by (simp add: n shift_symbol_sint [OF assms(1)] normalized_shift [OF rs])
  have b: "?out ! i = input ! i"
    if "i < strlen input" "\<not> in_range range_low range_high (input ! i)" for i
    using that by (simp add: n shift_symbol_out)
  have t: "?out ! strlen input = 0" using l by (rule nth_terminator)
  have d: "drop (Suc (strlen input)) ?out = drop (Suc (strlen input)) output"
    using l by (rule drop_rest)
  have len: "length ?out = length output" using l assms(2) by (rule length_written)
  show "\<exists>out'. caesar_encrypt range_low range_high key input output = Inr out'
            \<and> length out' = length output
            \<and> (\<forall>i < strlen input.
                  (in_range range_low range_high (input ! i) \<longrightarrow>
                     sint (out' ! i) = sint range_low +
                       (sint (input ! i) - sint range_low
                          + normalized_key (sint key) (sint range_high - sint range_low + 1))
                        mod (sint range_high - sint range_low + 1))
                  \<and> (\<not> in_range range_low range_high (input ! i) \<longrightarrow> out' ! i = input ! i))
            \<and> out' ! strlen input = 0
            \<and> drop (Suc (strlen input)) out' = drop (Suc (strlen input)) output"
    using e len a b t d by blast
next
  show "caesar_encrypt (of_char CHR ''A'') (of_char CHR ''Z'') 3 (bytes ''HELLOWORLD'')
          (replicate 11 0) = Inr (bytes ''KHOORZRUOG'' @ [0])"
    by code_simp
qed

theorem caesar_encrypt_symbols_witness:
  "sint (of_char CHR ''A'' :: cchar) < sint (of_char CHR ''Z'' :: cchar)
   \<and> strlen (bytes ''X-RAY'') < length (replicate 8 (1 :: cchar))
   \<and> caesar_encrypt (of_char CHR ''A'') (of_char CHR ''Z'') (- 23) (bytes ''X-RAY'')
        (replicate 8 1) = Inr (bytes ''A-UDB'' @ [0, 1, 1])"
proof -
  have h1: "sint (of_char CHR ''A'' :: cchar) < sint (of_char CHR ''Z'' :: cchar)" by simp
  have h2: "strlen (bytes ''X-RAY'') < length (replicate 8 (1 :: cchar))" by code_simp
  have "caesar_encrypt (of_char CHR ''A'') (of_char CHR ''Z'') (- 23) (bytes ''X-RAY'')
        (replicate 8 1) = Inr (bytes ''A-UDB'' @ [0, 1, 1])" by code_simp
  with h1 h2 caesar_encrypt_symbols [OF h1 h2, of "- 23"] show ?thesis by blast
qed

text \<open>
  C9. With \<open>range_high > range_low\<close>, two keys that differ by a multiple of the size of
  the range give the same result of \<open>caesar_encrypt\<close>, whatever the input and the output
  buffer.
\<close>

theorem caesar_encrypt_key_period:
  assumes "sint range_low < sint range_high"
    and "sint key' = sint key + n * (sint range_high - sint range_low + 1)"
  shows "caesar_encrypt range_low range_high key' input output =
         caesar_encrypt range_low range_high key input output"
  by (simp add: caesar_encrypt_norm [OF assms(1)] assms(2))

theorem caesar_encrypt_key_period_witness:
  "sint (of_char CHR ''A'' :: cchar) < sint (of_char CHR ''Z'' :: cchar)
   \<and> sint (- 49 :: cint) = sint (3 :: cint)
        + (- 2) * (sint (of_char CHR ''Z'' :: cchar) - sint (of_char CHR ''A'' :: cchar) + 1)
   \<and> caesar_encrypt (of_char CHR ''A'') (of_char CHR ''Z'') (- 49) (bytes ''HAL'') [0, 0, 0, 0]
       = caesar_encrypt (of_char CHR ''A'') (of_char CHR ''Z'') 3 (bytes ''HAL'') [0, 0, 0, 0]"
proof -
  have h1: "sint (of_char CHR ''A'' :: cchar) < sint (of_char CHR ''Z'' :: cchar)" by simp
  have h2: "sint (- 49 :: cint) = sint (3 :: cint)
        + (- 2) * (sint (of_char CHR ''Z'' :: cchar) - sint (of_char CHR ''A'' :: cchar) + 1)"
    by simp
  show ?thesis
    by (rule conjI [OF h1 conjI [OF h2 caesar_encrypt_key_period [OF h1 h2]]])
qed

section \<open>Claims about the Vigenere cipher\<close>

text \<open>
  C4. With \<open>range_high > range_low\<close>, a keyword that is not empty and room in the output
  buffer, \<open>vigenere_encrypt\<close> returns the buffer that holds, position by position, what
  the per-character algorithm of the specification computes from the input, then the
  terminator, then what the buffer held before; the calls of \<open>caesar_encrypt\<close> on the
  rest of the input leave no trace. The same holds of \<open>vigenere_decrypt\<close>.
\<close>

theorem vigenere_encrypt_per_character:
  assumes "sint range_low < sint range_high"
    and "0 < strlen keyword"
    and "strlen input < length output"
  shows "vigenere_encrypt range_low range_high keyword input output =
           Inr (poly_encrypt range_low range_high (c_str keyword) (c_str input)
                  @ 0 # drop (Suc (strlen input)) output)
         \<and> vigenere_decrypt range_low range_high keyword input output =
           Inr (poly_decrypt range_low range_high (c_str keyword) (c_str input)
                  @ 0 # drop (Suc (strlen input)) output)"
  using vigenere_encrypt_eq [OF assms(1,3,2)] vigenere_decrypt_eq [OF assms(1,3,2)]
  by (rule conjI)

theorem vigenere_encrypt_per_character_witness:
  "sint (of_char CHR ''A'' :: cchar) < sint (of_char CHR ''Z'' :: cchar)
   \<and> 0 < strlen (bytes ''KEY'')
   \<and> strlen (bytes ''HI, YOU'') < length (replicate 9 (1 :: cchar))
   \<and> vigenere_encrypt (of_char CHR ''A'') (of_char CHR ''Z'') (bytes ''KEY'') (bytes ''HI, YOU'')
        (replicate 9 1)
       = Inr (poly_encrypt (of_char CHR ''A'') (of_char CHR ''Z'') (c_str (bytes ''KEY''))
                (c_str (bytes ''HI, YOU'')) @ 0 # drop (Suc (strlen (bytes ''HI, YOU''))) (replicate 9 1))
   \<and> poly_encrypt (of_char CHR ''A'') (of_char CHR ''Z'') (c_str (bytes ''KEY''))
        (c_str (bytes ''HI, YOU'')) = bytes ''RM, WYY''
   \<and> drop (Suc (strlen (bytes ''HI, YOU''))) (replicate 9 (1 :: cchar)) = [1]"
proof -
  have h1: "sint (of_char CHR ''A'' :: cchar) < sint (of_char CHR ''Z'' :: cchar)" by simp
  have h2: "0 < strlen (bytes ''KEY'')" by code_simp
  have h3: "strlen (bytes ''HI, YOU'') < length (replicate 9 (1 :: cchar))" by code_simp
  have p: "poly_encrypt (of_char CHR ''A'') (of_char CHR ''Z'') (c_str (bytes ''KEY''))
        (c_str (bytes ''HI, YOU'')) = bytes ''RM, WYY''" by code_simp
  have d: "drop (Suc (strlen (bytes ''HI, YOU''))) (replicate 9 (1 :: cchar)) = [1]" by code_simp
  from vigenere_encrypt_per_character [OF h1 h2 h3] h1 h2 h3 p d show ?thesis by blast
qed

text \<open>
  C1, as amended. With \<open>range_high > range_low\<close>, the NUL character outside the range, a
  keyword that is not empty and room in both output buffers, \<open>vigenere_decrypt\<close> applied
  with the same keyword to what \<open>vigenere_encrypt\<close> returns gives back the string of the
  message.
\<close>

theorem vigenere_round_trip:
  assumes "sint range_low < sint range_high"
    and "\<not> in_range range_low range_high 0"
    and "0 < strlen keyword"
    and "strlen message < length cipher_buf"
    and "strlen message < length plain_buf"
  shows "\<exists>cipher_text plain_text.
           vigenere_encrypt range_low range_high keyword message cipher_buf = Inr cipher_text
         \<and> vigenere_decrypt range_low range_high keyword cipher_text plain_buf = Inr plain_text
         \<and> c_str plain_text = c_str message"
proof -
  let ?kw = "c_str keyword"
  let ?e = "poly_encrypt range_low range_high ?kw (c_str message)"
  let ?c = "?e @ 0 # drop (Suc (strlen message)) cipher_buf"
  have enc: "vigenere_encrypt range_low range_high keyword message cipher_buf = Inr ?c"
    using assms(1,4,3) by (rule vigenere_encrypt_eq)
  have nz: "0 \<notin> set ?e"
    unfolding poly_encrypt_alt
    by (rule poly_from_nonzero [OF shift_symbol_nonzero [OF assms(1,2)] zero_notin_c_str])
  have cs: "c_str ?c = ?e" using nz by (rule c_str_written)
  have sl: "strlen ?c = strlen message"
    using strlen_written [OF nz] by (simp add: length_poly_encrypt length_c_str)
  have room: "strlen ?c < length plain_buf" using sl assms(5) by simp
  let ?p = "poly_decrypt range_low range_high ?kw ?e @ 0 # drop (Suc (strlen ?c)) plain_buf"
  have dec: "vigenere_decrypt range_low range_high keyword ?c plain_buf = Inr ?p"
    using vigenere_decrypt_eq [OF assms(1) room assms(3)] by (simp only: cs)
  have rt: "poly_decrypt range_low range_high ?kw ?e = c_str message"
    unfolding poly_encrypt_alt poly_decrypt_alt by (rule poly_round_trip [OF assms(1)])
  have "c_str ?p = c_str message"
    unfolding rt by (rule c_str_written [OF zero_notin_c_str])
  with enc dec show ?thesis by blast
qed

theorem vigenere_round_trip_witness:
  "sint (of_char CHR ''A'' :: cchar) < sint (of_char CHR ''Z'' :: cchar)
   \<and> \<not> in_range (of_char CHR ''A'') (of_char CHR ''Z'') 0
   \<and> 0 < strlen (bytes ''KEY'')
   \<and> strlen (bytes ''HELLO'') < length (replicate 6 (0 :: cchar))
   \<and> vigenere_encrypt (of_char CHR ''A'') (of_char CHR ''Z'') (bytes ''KEY'') (bytes ''HELLO'')
        (replicate 6 0) = Inr (bytes ''RIJVS'' @ [0])
   \<and> vigenere_decrypt (of_char CHR ''A'') (of_char CHR ''Z'') (bytes ''KEY'') (bytes ''RIJVS'' @ [0])
        (replicate 6 0) = Inr (bytes ''HELLO'' @ [0])"
proof -
  have h1: "sint (of_char CHR ''A'' :: cchar) < sint (of_char CHR ''Z'' :: cchar)" by simp
  have h2: "\<not> in_range (of_char CHR ''A'') (of_char CHR ''Z'') 0" by code_simp
  have h3: "0 < strlen (bytes ''KEY'')" by code_simp
  have h4: "strlen (bytes ''HELLO'') < length (replicate 6 (0 :: cchar))" by code_simp
  have e: "vigenere_encrypt (of_char CHR ''A'') (of_char CHR ''Z'') (bytes ''KEY'') (bytes ''HELLO'')
        (replicate 6 0) = Inr (bytes ''RIJVS'' @ [0])" by code_simp
  have d: "vigenere_decrypt (of_char CHR ''A'') (of_char CHR ''Z'') (bytes ''KEY'') (bytes ''RIJVS'' @ [0])
        (replicate 6 0) = Inr (bytes ''HELLO'' @ [0])" by code_simp
  from vigenere_round_trip [OF h1 h2 h3 h4 h4] h1 h2 h3 h4 e d show ?thesis by blast
qed

theorem vigenere_round_trip_counterexample:
  "sint (0 :: cchar) < sint (of_char CHR ''Z'' :: cchar)
   \<and> list_all (in_range 0 (of_char CHR ''Z'')) (bytes ''A'')
   \<and> vigenere_encrypt 0 (of_char CHR ''Z'') (bytes ''A'') [26] [1, 1] = Inr [0, 0]
   \<and> vigenere_decrypt 0 (of_char CHR ''Z'') (bytes ''A'') [0, 0] [1, 1] = Inr [0, 1]
   \<and> c_str [0, 1] \<noteq> [26]"
  by code_simp

section \<open>Claims about all four transforms\<close>

text \<open>
  C2, as amended. With \<open>range_high > range_low\<close>, the NUL character outside the range,
  any key but the least \<open>int\<close> and room in both output buffers, \<open>caesar_decrypt\<close>
  applied with the same key to what \<open>caesar_encrypt\<close> returns gives back the string of
  the message.
\<close>

theorem caesar_round_trip:
  assumes "sint range_low < sint range_high"
    and "\<not> in_range range_low range_high 0"
    and "sint key \<noteq> - (2 ^ 31)"
    and "strlen message < length cipher_buf"
    and "strlen message < length plain_buf"
  shows "\<exists>cipher_text plain_text.
           caesar_encrypt range_low range_high key message cipher_buf = Inr cipher_text
         \<and> caesar_decrypt range_low range_high key cipher_text plain_buf = Inr plain_text
         \<and> c_str plain_text = c_str message"
proof -
  let ?f = "shift_symbol range_low range_high (sint key)"
  let ?g = "shift_symbol range_low range_high (- sint key)"
  let ?e = "map ?f (c_str message)"
  let ?c = "?e @ 0 # drop (Suc (strlen message)) cipher_buf"
  have enc: "caesar_encrypt range_low range_high key message cipher_buf = Inr ?c"
    using assms(1,4) by (rule caesar_encrypt_eq)
  have nz: "0 \<notin> set ?e"
  proof
    assume "0 \<in> set ?e"
    then obtain x where x: "x \<in> set (c_str message)" "?f x = 0" by auto
    from x(1) have "x \<noteq> 0" using zero_notin_c_str [of message] by auto
    then have "?f x \<noteq> 0" by (rule shift_symbol_nonzero [OF assms(1,2)])
    with x(2) show False by simp
  qed
  have cs: "c_str ?c = ?e" using nz by (rule c_str_written)
  have sl: "strlen ?c = strlen message"
    using strlen_written [OF nz] by (simp add: length_c_str)
  have room: "strlen ?c < length plain_buf" using sl assms(5) by simp
  let ?p = "map ?g ?e @ 0 # drop (Suc (strlen ?c)) plain_buf"
  have dec: "caesar_decrypt range_low range_high key ?c plain_buf = Inr ?p"
    using caesar_decrypt_eq [OF assms(1) room assms(3)] by (simp only: cs)
  have rt: "map ?g ?e = c_str message"
    by (simp add: shift_symbol_inverse [OF assms(1)] map_idI)
  have "c_str ?p = c_str message"
    unfolding rt by (rule c_str_written [OF zero_notin_c_str])
  with enc dec show ?thesis by blast
qed

theorem caesar_round_trip_witness:
  "sint (of_char CHR ''A'' :: cchar) < sint (of_char CHR ''Z'' :: cchar)
   \<and> \<not> in_range (of_char CHR ''A'') (of_char CHR ''Z'') 0
   \<and> sint (2147483647 :: cint) \<noteq> - (2 ^ 31)
   \<and> strlen (bytes ''HELLO, WORLD'') < length (replicate 13 (0 :: cchar))
   \<and> caesar_encrypt (of_char CHR ''A'') (of_char CHR ''Z'') 2147483647 (bytes ''HELLO, WORLD'')
        (replicate 13 0) = Inr (bytes ''EBIIL, TLOIA'' @ [0])
   \<and> caesar_decrypt (of_char CHR ''A'') (of_char CHR ''Z'') 2147483647 (bytes ''EBIIL, TLOIA'' @ [0])
        (replicate 13 0) = Inr (bytes ''HELLO, WORLD'' @ [0])"
proof -
  have h1: "sint (of_char CHR ''A'' :: cchar) < sint (of_char CHR ''Z'' :: cchar)" by simp
  have h2: "\<not> in_range (of_char CHR ''A'') (of_char CHR ''Z'') 0" by code_simp
  have h3: "sint (2147483647 :: cint) \<noteq> - (2 ^ 31)" by simp
  have h4: "strlen (bytes ''HELLO, WORLD'') < length (replicate 13 (0 :: cchar))" by code_simp
  have e: "caesar_encrypt (of_char CHR ''A'') (of_char CHR ''Z'') 2147483647 (bytes ''HELLO, WORLD'')
        (replicate 13 0) = Inr (bytes ''EBIIL, TLOIA'' @ [0])" by code_simp
  have d: "caesar_decrypt (of_char CHR ''A'') (of_char CHR ''Z'') 2147483647 (bytes ''EBIIL, TLOIA'' @ [0])
        (replicate 13 0) = Inr (bytes ''HELLO, WORLD'' @ [0])" by code_simp
  from caesar_round_trip [OF h1 h2 h3 h4 h4] h1 h2 h3 h4 e d show ?thesis by blast
qed

theorem caesar_round_trip_counterexample:
  "sint (of_char CHR ''A'' :: cchar) < sint (of_char CHR ''Z'' :: cchar)
   \<and> caesar_encrypt (of_char CHR ''A'') (of_char CHR ''Z'') (- 2147483648) (bytes ''B'') [1, 1]
       = Inr (bytes ''D'' @ [0])
   \<and> caesar_decrypt (of_char CHR ''A'') (of_char CHR ''Z'') (- 2147483648) (bytes ''D'' @ [0]) [1, 1]
       = Inl SignedOverflow
   \<and> sint (0 :: cchar) < sint (of_char CHR ''Z'' :: cchar)
   \<and> caesar_encrypt 0 (of_char CHR ''Z'') 26 (bytes ''A'') [1, 1] = Inr [0, 0]
   \<and> caesar_decrypt 0 (of_char CHR ''Z'') 26 [0, 0] [1, 1] = Inr [0, 1]
   \<and> c_str [0, 1] \<noteq> bytes ''A''"
  by code_simp

text \<open>
  Where the compiler lets the negation wrap around instead, \<open>-key\<close> is the least \<open>int\<close>
  again, and \<open>caesar_decrypt\<close> shifts the ciphertext \<open>D\<close> of \<open>B\<close> once more, to \<open>F\<close>.
\<close>

lemma least_int_negation_wraps:
  "- (- 2147483648 :: cint) = - 2147483648
   \<and> caesar_encrypt (of_char CHR ''A'') (of_char CHR ''Z'') (- (- 2147483648)) (bytes ''D'')
        [1, 1] = Inr (bytes ''F'' @ [0])"
  by code_simp

text \<open>
  C5. With \<open>range_high > range_low\<close> and room in the output buffer, a symbol of the
  message outside the range is at its position in what each of the four transforms
  returns (\<open>caesar_decrypt\<close> for any key but the least \<open>int\<close>, the Vigenere transforms
  for a keyword that is not empty); and the iteration of the loop of \<open>vigenere_encrypt\<close>
  and of \<open>vigenere_decrypt\<close> at that position stores the symbol and leaves the index into
  the keyword as it was.
\<close>

theorem pass_through:
  assumes "sint range_low < sint range_high"
    and "strlen message < length output"
    and "i < strlen message"
    and "\<not> in_range range_low range_high (message ! i)"
  shows "(\<exists>out'. caesar_encrypt range_low range_high key message output = Inr out'
            \<and> out' ! i = message ! i)
       \<and> (sint key \<noteq> - (2 ^ 31) \<longrightarrow>
            (\<exists>out'. caesar_decrypt range_low range_high key message output = Inr out'
               \<and> out' ! i = message ! i))
       \<and> (0 < strlen keyword \<longrightarrow>
            (\<exists>out'. vigenere_encrypt range_low range_high keyword message output = Inr out'
               \<and> out' ! i = message ! i)
          \<and> (\<exists>out'. vigenere_decrypt range_low range_high keyword message output = Inr out'
               \<and> out' ! i = message ! i))
       \<and> (\<forall>index buf. length buf = length output \<longrightarrow>
            vigenere_body caesar_encrypt range_low range_high keyword (strlen keyword)
                message i index buf = Inr (index, buf[i := message ! i])
          \<and> vigenere_body caesar_decrypt range_low range_high keyword (strlen keyword)
                message i index buf = Inr (index, buf[i := message ! i]))"
proof -
  have ci: "c_str message ! i = message ! i" using assms(3) by (rule c_str_nth)
  have li: "i < length (c_str message)" using assms(3) by (simp add: length_c_str)
  have m: "(map (shift_symbol range_low range_high k) (c_str message) @ x # d) ! i = message ! i"
    for k x d
    using li assms(4) by (simp add: nth_written ci shift_symbol_out)
  have a: "\<exists>out'. caesar_encrypt range_low range_high key message output = Inr out'
            \<and> out' ! i = message ! i"
    using caesar_encrypt_eq [OF assms(1,2)] m by simp
  have b: "\<exists>out'. caesar_decrypt range_low range_high key message output = Inr out'
            \<and> out' ! i = message ! i" if "sint key \<noteq> - (2 ^ 31)"
    using caesar_decrypt_eq [OF assms(1,2) that] m by simp
  have pe: "(poly_encrypt range_low range_high kw (c_str message) @ x # d) ! i = message ! i"
    for kw x d
    using li assms(4)
    by (simp add: nth_written length_poly_from poly_encrypt_alt poly_from_nth_out ci)
  have pd: "(poly_decrypt range_low range_high kw (c_str message) @ x # d) ! i = message ! i"
    for kw x d
    using li assms(4)
    by (simp add: nth_written length_poly_from poly_decrypt_alt poly_from_nth_out ci)
  have c: "\<exists>out'. vigenere_encrypt range_low range_high keyword message output = Inr out'
            \<and> out' ! i = message ! i" if "0 < strlen keyword"
    using vigenere_encrypt_eq [OF assms(1,2) that] pe by simp
  have d: "\<exists>out'. vigenere_decrypt range_low range_high keyword message output = Inr out'
            \<and> out' ! i = message ! i" if "0 < strlen keyword"
    using vigenere_decrypt_eq [OF assms(1,2) that] pd by simp
  have e: "vigenere_body caesar range_low range_high keyword (strlen keyword)
                message i index buf = Inr (index, buf[i := message ! i])"
    if "length buf = length output" for caesar index buf
    using assms(2,3) that by (intro vigenere_body_out [OF assms(4)]) simp
  from a b c d e show ?thesis by blast
qed

theorem pass_through_witness:
  "sint (of_char CHR ''A'' :: cchar) < sint (of_char CHR ''Z'' :: cchar)
   \<and> strlen (bytes ''A B'') < length [0, 0, 0, 0 :: cchar]
   \<and> (1 :: nat) < strlen (bytes ''A B'')
   \<and> \<not> in_range (of_char CHR ''A'') (of_char CHR ''Z'') (bytes ''A B'' ! 1)
   \<and> sint (3 :: cint) \<noteq> - (2 ^ 31)
   \<and> 0 < strlen (bytes ''BC'')
   \<and> caesar_encrypt (of_char CHR ''A'') (of_char CHR ''Z'') 3 (bytes ''A B'') [0, 0, 0, 0]
       = Inr (bytes ''D E'' @ [0])
   \<and> caesar_decrypt (of_char CHR ''A'') (of_char CHR ''Z'') 3 (bytes ''A B'') [0, 0, 0, 0]
       = Inr (bytes ''X Y'' @ [0])
   \<and> vigenere_encrypt (of_char CHR ''A'') (of_char CHR ''Z'') (bytes ''BC'') (bytes ''A B'')
        [0, 0, 0, 0] = Inr (bytes ''B D'' @ [0])
   \<and> vigenere_decrypt (of_char CHR ''A'') (of_char CHR ''Z'') (bytes ''BC'') (bytes ''A B'')
        [0, 0, 0, 0] = Inr (bytes ''Z Z'' @ [0])
   \<and> vigenere_body caesar_encrypt (of_char CHR ''A'') (of_char CHR ''Z'') (bytes ''BC'')
        (strlen (bytes ''BC'')) (bytes ''A B'') 1 1 (bytes ''B'' @ [0, 0, 0])
       = Inr (1, bytes ''B '' @ [0, 0])"
proof -
  have h1: "sint (of_char CHR ''A'' :: cchar) < sint (of_char CHR ''Z'' :: cchar)" by simp
  have h2: "strlen (bytes ''A B'') < length [0, 0, 0, 0 :: cchar]" by code_simp
  have h3: "(1 :: nat) < strlen (bytes ''A B'')" by code_simp
  have h4: "\<not> in_range (of_char CHR ''A'') (of_char CHR ''Z'') (bytes ''A B'' ! 1)" by code_simp
  have h5: "sint (3 :: cint) \<noteq> - (2 ^ 31)" by simp
  have h6: "0 < strlen (bytes ''BC'')" by code_simp
  have a: "caesar_encrypt (of_char CHR ''A'') (of_char CHR ''Z'') 3 (bytes ''A B'') [0, 0, 0, 0]
       = Inr (bytes ''D E'' @ [0])" by code_simp
  have b: "caesar_decrypt (of_char CHR ''A'') (of_char CHR ''Z'') 3 (bytes ''A B'') [0, 0, 0, 0]
       = Inr (bytes ''X Y'' @ [0])" by code_simp
  have c: "vigenere_encrypt (of_char CHR ''A'') (of_char CHR ''Z'') (bytes ''BC'') (bytes ''A B'')
        [0, 0, 0, 0] = Inr (bytes ''B D'' @ [0])" by code_simp
  have d: "vigenere_decrypt (of_char CHR ''A'') (of_char CHR ''Z'') (bytes ''BC'') (bytes ''A B'')
        [0, 0, 0, 0] = Inr (bytes ''Z Z'' @ [0])" by code_simp
  have e: "vigenere_body caesar_encrypt (of_char CHR ''A'') (of_char CHR ''Z'') (bytes ''BC'')
        (strlen (bytes ''BC'')) (bytes ''A B'') 1 1 (bytes ''B'' @ [0, 0, 0])
       = Inr (1, bytes ''B '' @ [0, 0])" by code_simp
  from pass_through [OF h1 h2 h3 h4] h1 h2 h3 h4 h5 h6 a b c d e show ?thesis by blast
qed

text \<open>
  C10. With \<open>range_high > range_low\<close> and room in the output buffer, where the input holds
  a symbol of the range, what each of the four transforms returns holds a symbol of the
  range (\<open>caesar_encrypt\<close> for every key, \<open>caesar_decrypt\<close> for any key but the least
  \<open>int\<close>, the Vigenere transforms for a keyword that is not empty).
\<close>

theorem in_range_closure:
  assumes "sint range_low < sint range_high"
    and "strlen input < length output"
    and "i < strlen input"
    and "in_range range_low range_high (input ! i)"
  shows "(\<exists>out'. caesar_encrypt range_low range_high key input output = Inr out'
            \<and> in_range range_low range_high (out' ! i))
       \<and> (sint key \<noteq> - (2 ^ 31) \<longrightarrow>
            (\<exists>out'. caesar_decrypt range_low range_high key input output = Inr out'
               \<and> in_range range_low range_high (out' ! i)))
       \<and> (0 < strlen keyword \<longrightarrow>
            (\<exists>out'. vigenere_encrypt range_low range_high keyword input output = Inr out'
               \<and> in_range range_low range_high (out' ! i))
          \<and> (\<exists>out'. vigenere_decrypt range_low range_high keyword input output = Inr out'
               \<and> in_range range_low range_high (out' ! i)))"
proof -
  have ci: "c_str input ! i = input ! i" using assms(3) by (rule c_str_nth)
  have li: "i < length (c_str input)" using assms(3) by (simp add: length_c_str)
  have r: "in_range range_low range_high (c_str input ! i)" using assms(4) ci by simp
  have m: "in_range range_low range_high
             ((map (shift_symbol range_low range_high k) (c_str input) @ x # d) ! i)" for k x d
    using li r by (simp add: nth_written shift_symbol_in_range [OF assms(1)])
  have a: "\<exists>out'. caesar_encrypt range_low range_high key input output = Inr out'
            \<and> in_range range_low range_high (out' ! i)"
    using caesar_encrypt_eq [OF assms(1,2)] m by simp
  have b: "\<exists>out'. caesar_decrypt range_low range_high key input output = Inr out'
            \<and> in_range range_low range_high (out' ! i)" if "sint key \<noteq> - (2 ^ 31)"
    using caesar_decrypt_eq [OF assms(1,2) that] m by simp
  have pe: "in_range range_low range_high
              ((poly_encrypt range_low range_high kw (c_str input) @ x # d) ! i)" for kw x d
    using li poly_from_nth_in [of range_low range_high "shift_symbol range_low range_high",
        OF shift_symbol_in_range [OF assms(1)] li r]
    by (simp add: nth_written length_poly_from poly_encrypt_alt)
  have pd: "in_range range_low range_high
              ((poly_decrypt range_low range_high kw (c_str input) @ x # d) ! i)" for kw x d
    using li poly_from_nth_in [of range_low range_high "\<lambda>k. shift_symbol range_low range_high (- k)",
        OF shift_symbol_in_range [OF assms(1)] li r]
    by (simp add: nth_written length_poly_from poly_decrypt_alt)
  have c: "\<exists>out'. vigenere_encrypt range_low range_high keyword input output = Inr out'
            \<and> in_range range_low range_high (out' ! i)" if "0 < strlen keyword"
    using vigenere_encrypt_eq [OF assms(1,2) that] pe by simp
  have d: "\<exists>out'. vigenere_decrypt range_low range_high keyword input output = Inr out'
            \<and> in_range range_low range_high (out' ! i)" if "0 < strlen keyword"
    using vigenere_decrypt_eq [OF assms(1,2) that] pd by simp
  from a b c d show ?thesis by blast
qed

theorem in_range_closure_witness:
  "sint (of_char CHR ''A'' :: cchar) < sint (of_char CHR ''Z'' :: cchar)
   \<and> strlen (bytes ''XYZ'') < length [0, 0, 0, 0 :: cchar]
   \<and> (2 :: nat) < strlen (bytes ''XYZ'')
   \<and> in_range (of_char CHR ''A'') (of_char CHR ''Z'') (bytes ''XYZ'' ! 2)
   \<and> sint (1000 :: cint) \<noteq> - (2 ^ 31)
   \<and> 0 < strlen (bytes ''Q'')
   \<and> caesar_encrypt (of_char CHR ''A'') (of_char CHR ''Z'') 1000 (bytes ''XYZ'') [0, 0, 0, 0]
       = Inr (bytes ''JKL'' @ [0])
   \<and> caesar_decrypt (of_char CHR ''A'') (of_char CHR ''Z'') 1000 (bytes ''XYZ'') [0, 0, 0, 0]
       = Inr (bytes ''LMN'' @ [0])
   \<and> vigenere_encrypt (of_char CHR ''A'') (of_char CHR ''Z'') (bytes ''Q'') (bytes ''XYZ'')
        [0, 0, 0, 0] = Inr (bytes ''NOP'' @ [0])
   \<and> vigenere_decrypt (of_char CHR ''A'') (of_char CHR ''Z'') (bytes ''Q'') (bytes ''XYZ'')
        [0, 0, 0, 0] = Inr (bytes ''HIJ'' @ [0])
   \<and> in_range (of_char CHR ''A'') (of_char CHR ''Z'') ((bytes ''JKL'' @ [0]) ! 2)"
proof -
  have h1: "sint (of_char CHR ''A'' :: cchar) < sint (of_char CHR ''Z'' :: cchar)" by simp
  have h2: "strlen (bytes ''XYZ'') < length [0, 0, 0, 0 :: cchar]" by code_simp
  have h3: "(2 :: nat) < strlen (bytes ''XYZ'')" by code_simp
  have h4: "in_range (of_char CHR ''A'') (of_char CHR ''Z'') (bytes ''XYZ'' ! 2)" by code_simp
  have h5: "sint (1000 :: cint) \<noteq> - (2 ^ 31)" by simp
  have h6: "0 < strlen (bytes ''Q'')" by code_simp
  have a: "caesar_encrypt (of_char CHR ''A'') (of_char CHR ''Z'') 1000 (bytes ''XYZ'') [0, 0, 0, 0]
       = Inr (bytes ''JKL'' @ [0])" by code_simp
  have b: "caesar_decrypt (of_char CHR ''A'') (of_char CHR ''Z'') 1000 (bytes ''XYZ'') [0, 0, 0, 0]
       = Inr (bytes ''LMN'' @ [0])" by code_simp
  have c: "vigenere_encrypt (of_char CHR ''A'') (of_char CHR ''Z'') (bytes ''Q'') (bytes ''XYZ'')
        [0, 0, 0, 0] = Inr (bytes ''NOP'' @ [0])" by code_simp
  have d: "vigenere_decrypt (of_char CHR ''A'') (of_char CHR ''Z'') (bytes ''Q'') (bytes ''XYZ'')
        [0, 0, 0, 0] = Inr (bytes ''HIJ'' @ [0])" by code_simp
  have r: "in_range (of_char CHR ''A'') (of_char CHR ''Z'') ((bytes ''JKL'' @ [0]) ! 2)"
    by code_simp
  from in_range_closure [OF h1 h2 h3 h4] h1 h2 h3 h4 h5 h6 a b c d r show ?thesis by blast
qed

text \<open>
  C8, as amended. With \<open>range_high > range_low\<close> and room in the output buffer,
  \<open>caesar_encrypt\<close> returns for every key, \<open>caesar_decrypt\<close> for every key but the least
  \<open>int\<close>, and \<open>vigenere_encrypt\<close> and \<open>vigenere_decrypt\<close> for every keyword that is not
  empty: no division by zero, no overflow, no store outside the buffer.
\<close>

theorem transforms_total:
  assumes "sint range_low < sint range_high"
    and "strlen message < length output"
  shows "(\<exists>out'. caesar_encrypt range_low range_high key message output = Inr out')
       \<and> (sint key \<noteq> - (2 ^ 31) \<longrightarrow>
            (\<exists>out'. caesar_decrypt range_low range_high key message output = Inr out'))
       \<and> (0 < strlen keyword \<longrightarrow>
            (\<exists>out'. vigenere_encrypt range_low range_high keyword message output = Inr out')
          \<and> (\<exists>out'. vigenere_decrypt range_low range_high keyword message output = Inr out'))"
  using caesar_encrypt_eq [OF assms] caesar_decrypt_eq [OF assms]
    vigenere_encrypt_eq [OF assms] vigenere_decrypt_eq [OF assms]
  by simp

theorem transforms_total_witness:
  "sint (of_char CHR ''A'' :: cchar) < sint (of_char CHR ''Z'' :: cchar)
   \<and> strlen (bytes ''ATTACK AT DAWN'') < length (replicate 15 (0 :: cchar))
   \<and> sint (- 2147483647 :: cint) \<noteq> - (2 ^ 31)
   \<and> 0 < strlen (bytes ''LEMON'')
   \<and> caesar_encrypt (of_char CHR ''A'') (of_char CHR ''Z'') (- 2147483647)
        (bytes ''ATTACK AT DAWN'') (replicate 15 0) = Inr (bytes ''DWWDFN DW GDZQ'' @ [0])
   \<and> caesar_decrypt (of_char CHR ''A'') (of_char CHR ''Z'') (- 2147483647)
        (bytes ''DWWDFN DW GDZQ'') (replicate 15 0) = Inr (bytes ''ATTACK AT DAWN'' @ [0])
   \<and> vigenere_encrypt (of_char CHR ''A'') (of_char CHR ''Z'') (bytes ''LEMON'')
        (bytes ''ATTACK AT DAWN'') (replicate 15 0) = Inr (bytes ''LXFOPV EF RNHR'' @ [0])
   \<and> vigenere_decrypt (of_char CHR ''A'') (of_char CHR ''Z'') (bytes ''LEMON'')
        (bytes ''LXFOPV EF RNHR'') (replicate 15 0) = Inr (bytes ''ATTACK AT DAWN'' @ [0])"
proof -
  have h1: "sint (of_char CHR ''A'' :: cchar) < sint (of_char CHR ''Z'' :: cchar)" by simp
  have h2: "strlen (bytes ''ATTACK AT DAWN'') < length (replicate 15 (0 :: cchar))" by code_simp
  have h3: "sint (- 2147483647 :: cint) \<noteq> - (2 ^ 31)" by simp
  have h4: "0 < strlen (bytes ''LEMON'')" by code_simp
  have a: "caesar_encrypt (of_char CHR ''A'') (of_char CHR ''Z'') (- 2147483647)
        (bytes ''ATTACK AT DAWN'') (replicate 15 0) = Inr (bytes ''DWWDFN DW GDZQ'' @ [0])"
    by code_simp
  have b: "caesar_decrypt (of_char CHR ''A'') (of_char CHR ''Z'') (- 2147483647)
        (bytes ''DWWDFN DW GDZQ'') (replicate 15 0) = Inr (bytes ''ATTACK AT DAWN'' @ [0])"
    by code_simp
  have c: "vigenere_encrypt (of_char CHR ''A'') (of_char CHR ''Z'') (bytes ''LEMON'')
        (bytes ''ATTACK AT DAWN'') (replicate 15 0) = Inr (bytes ''LXFOPV EF RNHR'' @ [0])"
    by code_simp
  have d: "vigenere_decrypt (of_char CHR ''A'') (of_char CHR ''Z'') (bytes ''LEMON'')
        (bytes ''LXFOPV EF RNHR'') (replicate 15 0) = Inr (bytes ''ATTACK AT DAWN'' @ [0])"
    by code_simp
  from transforms_total [OF h1 h2] h1 h2 h3 h4 a b c d show ?thesis by blast
qed

theorem transforms_total_counterexample:
  "sint (of_char CHR ''A'' :: cchar) < sint (of_char CHR ''Z'' :: cchar)
   \<and> strlen (bytes ''HELLO'') < length (replicate 6 (0 :: cchar))
   \<and> caesar_decrypt (of_char CHR ''A'') (of_char CHR ''Z'') (- 2147483648) (bytes ''HELLO'')
        (replicate 6 0) = Inl SignedOverflow"
  by code_simp

section \<open>Claims about the validation of keys\<close>

text \<open>
  What the preconditions are for: without a keyword \<open>vigenere_encrypt\<close> divides by zero
  at the first symbol of the range, and \<open>handle_vigenere\<close> and \<open>handle_caesar\<close> alone let
  the empty key through, which \<open>cli\<close> has turned away before.
\<close>

lemma empty_keyword_divides_by_zero:
  "vigenere_encrypt RANGE_LOW RANGE_HIGH [] (bytes ''HELLO'') (replicate 6 0)
     = Inl DivisionByZero"
  "handle_vigenere (bytes ''vigenere-encrypt'') [] (bytes ''HELLO'') (replicate 6 0)
     = Inl DivisionByZero"
  by code_simp+

lemma handle_caesar_empty_key:
  "handle_caesar (bytes ''caesar-encrypt'') [] (bytes ''HELLO'') (replicate 6 0)
     = Inr \<lparr>exit_status = 0, stdout = bytes ''HELLO'' @ [10], stderr = []\<rparr>"
  by code_simp


lemma c_str_bytes_vigenere_encrypt: "c_str (bytes ''vigenere-encrypt'') = bytes ''vigenere-encrypt''"
  by code_simp

lemma c_str_bytes_vigenere_decrypt: "c_str (bytes ''vigenere-decrypt'') = bytes ''vigenere-decrypt''"
  by code_simp

lemma c_str_bytes_caesar_encrypt: "c_str (bytes ''caesar-encrypt'') = bytes ''caesar-encrypt''"
  by code_simp

lemma c_str_bytes_caesar_decrypt: "c_str (bytes ''caesar-decrypt'') = bytes ''caesar-decrypt''"
  by code_simp

lemma operations_differ:
  "bytes ''caesar-encrypt'' \<noteq> bytes ''vigenere-encrypt''"
  "bytes ''caesar-encrypt'' \<noteq> bytes ''vigenere-decrypt''"
  "bytes ''caesar-decrypt'' \<noteq> bytes ''vigenere-encrypt''"
  "bytes ''caesar-decrypt'' \<noteq> bytes ''vigenere-decrypt''"
  "bytes ''caesar-decrypt'' \<noteq> bytes ''caesar-encrypt''"
  "bytes ''vigenere-decrypt'' \<noteq> bytes ''vigenere-encrypt''"
  by code_simp+

lemma range_AZ: "sint RANGE_LOW < sint RANGE_HIGH" "sint RANGE_HIGH - sint RANGE_LOW + 1 = 26"
  "\<not> in_range RANGE_LOW RANGE_HIGH 0"
  by (simp_all add: RANGE_LOW_def RANGE_HIGH_def in_range_def word_sle_eq)

lemma load_first: "(load s 0 = Inr 0) = (c_str s = [])"
  by (cases s) (auto simp add: load_def c_str_def)

lemma validate_key_characters_eq:
  "validate_key_characters s = list_all (in_range RANGE_LOW RANGE_HIGH) (c_str s)"
  by (induction s) (auto simp add: c_str_def in_range_def word_sless_alt word_sle_eq)

lemma strlen_0_iff: "(strlen s = 0) = (c_str s = [])"
  by (simp add: strlen_def c_str_def)

lemma printed_vigenere_encrypt:
  assumes "0 < strlen key" "strlen message < 1024"
  shows "\<exists>t. vigenere_encrypt RANGE_LOW RANGE_HIGH key message (replicate 1024 0) = Inr t
     \<and> c_str t = poly_encrypt RANGE_LOW RANGE_HIGH (c_str key) (c_str message)"
proof -
  have room: "strlen message < length (replicate 1024 (0 :: cchar))" using assms(2) by simp
  have nz: "0 \<notin> set (poly_encrypt RANGE_LOW RANGE_HIGH (c_str key) (c_str message))"
    unfolding poly_encrypt_alt
    by (rule poly_from_nonzero [OF shift_symbol_nonzero [OF range_AZ(1,3)] zero_notin_c_str])
  show ?thesis
    using vigenere_encrypt_eq [OF range_AZ(1) room assms(1)] c_str_written [OF nz] by simp
qed

lemma printed_vigenere_decrypt:
  assumes "0 < strlen key" "strlen message < 1024"
  shows "\<exists>t. vigenere_decrypt RANGE_LOW RANGE_HIGH key message (replicate 1024 0) = Inr t
     \<and> c_str t = poly_decrypt RANGE_LOW RANGE_HIGH (c_str key) (c_str message)"
proof -
  have room: "strlen message < length (replicate 1024 (0 :: cchar))" using assms(2) by simp
  have nz: "0 \<notin> set (poly_decrypt RANGE_LOW RANGE_HIGH (c_str key) (c_str message))"
    unfolding poly_decrypt_alt
    by (rule poly_from_nonzero [OF shift_symbol_nonzero [OF range_AZ(1,3)] zero_notin_c_str])
  show ?thesis
    using vigenere_decrypt_eq [OF range_AZ(1) room assms(1)] c_str_written [OF nz] by simp
qed

lemma cli_four:
  "cli [prog, operation, key_str, message] =
     (if load key_str 0 = Inr 0 \<or> load message 0 = Inr 0
      then Inr \<lparr>exit_status = 1, stdout = [], stderr = print_usage prog\<rparr>
      else if 1024 \<le> strlen message
      then Inr \<lparr>exit_status = 1, stdout = [],
                stderr = bytes ''Error: Message length exceeds maximum allowed size of 1023 characters''
                           @ [10]\<rparr>
      else if streq operation (bytes ''vigenere-encrypt'')
              \<or> streq operation (bytes ''vigenere-decrypt'')
      then handle_vigenere operation key_str message (replicate 1024 0)
      else if streq operation (bytes ''caesar-encrypt'')
              \<or> streq operation (bytes ''caesar-decrypt'')
      then handle_caesar operation key_str message (replicate 1024 0)
      else Inr \<lparr>exit_status = 1, stdout = [],
                stderr = bytes ''Invalid operation: '' @ c_str operation @ [10]
                           @ print_usage prog\<rparr>)"
  by (simp add: cli_def program_name_def Let_def)

lemma print_usage_nonempty: "print_usage p \<noteq> []"
  by (simp add: print_usage_def bytes_def)

lemma rejected_usage:
  "\<exists>r. Inr \<lparr>exit_status = 1, stdout = [], stderr = print_usage prog\<rparr> = Inr r
       \<and> exit_status r = 1 \<and> stderr r \<noteq> [] \<and> stdout r = []"
  by (simp add: print_usage_nonempty)

lemma handle_vigenere_rejects:
  assumes "\<not> list_all (in_range RANGE_LOW RANGE_HIGH) (c_str key_str)"
  shows "\<exists>r. handle_vigenere operation key_str message buf = Inr r
       \<and> exit_status r = 1 \<and> stderr r \<noteq> [] \<and> stdout r = []"
  using assms by (simp add: handle_vigenere_def validate_key_characters_eq bytes_def)

lemma handle_vigenere_accepts:
  assumes "valid_keyword RANGE_LOW RANGE_HIGH (c_str key_str)" "strlen message < 1024"
  shows "handle_vigenere operation key_str message (replicate 1024 0) =
     Inr \<lparr>exit_status = 0,
          stdout = (if streq operation (bytes ''vigenere-encrypt'')
                    then poly_encrypt RANGE_LOW RANGE_HIGH (c_str key_str) (c_str message)
                    else poly_decrypt RANGE_LOW RANGE_HIGH (c_str key_str) (c_str message)) @ [10],
          stderr = []\<rparr>"
proof -
  have k: "0 < strlen key_str"
    using assms(1) by (simp add: valid_keyword_def length_c_str [symmetric])
  have v: "validate_key_characters key_str"
    using assms(1) by (simp add: valid_keyword_def validate_key_characters_eq)
  obtain t where t: "vigenere_encrypt RANGE_LOW RANGE_HIGH key_str message (replicate 1024 0) = Inr t"
      "c_str t = poly_encrypt RANGE_LOW RANGE_HIGH (c_str key_str) (c_str message)"
    using printed_vigenere_encrypt [OF k assms(2)] by blast
  obtain u where u: "vigenere_decrypt RANGE_LOW RANGE_HIGH key_str message (replicate 1024 0) = Inr u"
      "c_str u = poly_decrypt RANGE_LOW RANGE_HIGH (c_str key_str) (c_str message)"
    using printed_vigenere_decrypt [OF k assms(2)] by blast
  show ?thesis by (simp add: handle_vigenere_def v t u)
qed

text \<open>
  C6. For the two Vigenere operations, \<open>cli\<close> returns the status 1 with a diagnostic on
  the standard error, and prints no result, whenever the keyword is empty or holds a
  symbol outside \<open>A\<close> to \<open>Z\<close>; and for a keyword it accepts, with a message that is not
  empty and shorter than 1024, it prints what the specification's transform gives for
  the keyword as it was typed. The test for the empty keyword is the one of \<open>cli\<close>;
  \<open>validate_key_characters\<close> tests the symbols only.
\<close>

theorem keyword_validation:
  assumes "streq operation (bytes ''vigenere-encrypt'')
           \<or> streq operation (bytes ''vigenere-decrypt'')"
  shows "(\<not> valid_keyword RANGE_LOW RANGE_HIGH (c_str key_str) \<longrightarrow>
            (\<exists>r. cli [prog, operation, key_str, message] = Inr r
               \<and> exit_status r = 1 \<and> stderr r \<noteq> [] \<and> stdout r = []))
       \<and> (valid_keyword RANGE_LOW RANGE_HIGH (c_str key_str)
            \<and> c_str message \<noteq> [] \<and> strlen message < 1024 \<longrightarrow>
            cli [prog, operation, key_str, message] =
              Inr \<lparr>exit_status = 0,
                   stdout = (if streq operation (bytes ''vigenere-encrypt'')
                             then poly_encrypt RANGE_LOW RANGE_HIGH (c_str key_str) (c_str message)
                             else poly_decrypt RANGE_LOW RANGE_HIGH (c_str key_str) (c_str message))
                            @ [10],
                   stderr = []\<rparr>)
       \<and> validate_key_characters key_str
           = list_all (in_range RANGE_LOW RANGE_HIGH) (c_str key_str)"
proof (intro conjI impI)
  assume n: "\<not> valid_keyword RANGE_LOW RANGE_HIGH (c_str key_str)"
  show "\<exists>r. cli [prog, operation, key_str, message] = Inr r
          \<and> exit_status r = 1 \<and> stderr r \<noteq> [] \<and> stdout r = []"
  proof (cases "c_str key_str = []")
    case True
    then show ?thesis by (simp add: cli_four load_first print_usage_nonempty)
  next
    case False
    with n have "\<not> list_all (in_range RANGE_LOW RANGE_HIGH) (c_str key_str)"
      by (simp add: valid_keyword_def)
    from handle_vigenere_rejects [OF this] assms show ?thesis
      by (simp add: cli_four print_usage_nonempty bytes_def)
  qed
next
  assume a: "valid_keyword RANGE_LOW RANGE_HIGH (c_str key_str)
            \<and> c_str message \<noteq> [] \<and> strlen message < 1024"
  then have "c_str key_str \<noteq> []" by (simp add: valid_keyword_def)
  with a assms show "cli [prog, operation, key_str, message] =
              Inr \<lparr>exit_status = 0,
                   stdout = (if streq operation (bytes ''vigenere-encrypt'')
                             then poly_encrypt RANGE_LOW RANGE_HIGH (c_str key_str) (c_str message)
                             else poly_decrypt RANGE_LOW RANGE_HIGH (c_str key_str) (c_str message))
                            @ [10],
                   stderr = []\<rparr>"
    by (simp add: cli_four load_first handle_vigenere_accepts)
next
  show "validate_key_characters key_str
           = list_all (in_range RANGE_LOW RANGE_HIGH) (c_str key_str)"
    by (rule validate_key_characters_eq)
qed

theorem keyword_validation_witness:
  "(streq (bytes ''vigenere-encrypt'') (bytes ''vigenere-encrypt'')
      \<or> streq (bytes ''vigenere-encrypt'') (bytes ''vigenere-decrypt''))
   \<and> \<not> valid_keyword RANGE_LOW RANGE_HIGH (c_str (bytes ''Key''))
   \<and> cli [bytes ''safecipher'', bytes ''vigenere-encrypt'', bytes ''Key'', bytes ''HELLO'']
       = Inr \<lparr>exit_status = 1, stdout = [],
              stderr = bytes ''Key characters must be in the range '' @ quoted ''A''
                         @ bytes ''->'' @ quoted ''Z'' @ [10]\<rparr>
   \<and> \<not> valid_keyword RANGE_LOW RANGE_HIGH (c_str [])
   \<and> cli [bytes ''safecipher'', bytes ''vigenere-encrypt'', [], bytes ''HELLO'']
       = Inr \<lparr>exit_status = 1, stdout = [], stderr = print_usage (bytes ''safecipher'')\<rparr>
   \<and> valid_keyword RANGE_LOW RANGE_HIGH (c_str (bytes ''KEY''))
   \<and> c_str (bytes ''HELLO'') \<noteq> []
   \<and> strlen (bytes ''HELLO'') < 1024
   \<and> cli [bytes ''safecipher'', bytes ''vigenere-encrypt'', bytes ''KEY'', bytes ''HELLO'']
       = Inr \<lparr>exit_status = 0, stdout = bytes ''RIJVS'' @ [10], stderr = []\<rparr>"
proof -
  have h: "streq (bytes ''vigenere-encrypt'') (bytes ''vigenere-encrypt'')
      \<or> streq (bytes ''vigenere-encrypt'') (bytes ''vigenere-decrypt'')"
    by (simp add: streq_def)
  have a: "\<not> valid_keyword RANGE_LOW RANGE_HIGH (c_str (bytes ''Key''))" by code_simp
  have b: "cli [bytes ''safecipher'', bytes ''vigenere-encrypt'', bytes ''Key'', bytes ''HELLO'']
       = Inr \<lparr>exit_status = 1, stdout = [],
              stderr = bytes ''Key characters must be in the range '' @ quoted ''A''
                         @ bytes ''->'' @ quoted ''Z'' @ [10]\<rparr>" by code_simp
  have c: "\<not> valid_keyword RANGE_LOW RANGE_HIGH (c_str [])" by code_simp
  have d: "cli [bytes ''safecipher'', bytes ''vigenere-encrypt'', [], bytes ''HELLO'']
       = Inr \<lparr>exit_status = 1, stdout = [], stderr = print_usage (bytes ''safecipher'')\<rparr>"
    by code_simp
  have e: "valid_keyword RANGE_LOW RANGE_HIGH (c_str (bytes ''KEY''))" by code_simp
  have f: "c_str (bytes ''HELLO'') \<noteq> []" by code_simp
  have g: "strlen (bytes ''HELLO'') < 1024" by code_simp
  have p: "poly_encrypt RANGE_LOW RANGE_HIGH (c_str (bytes ''KEY'')) (c_str (bytes ''HELLO''))
       = bytes ''RIJVS''" by code_simp
  have i: "cli [bytes ''safecipher'', bytes ''vigenere-encrypt'', bytes ''KEY'', bytes ''HELLO'']
       = Inr \<lparr>exit_status = 0, stdout = bytes ''RIJVS'' @ [10], stderr = []\<rparr>"
    using keyword_validation [OF h, where key_str = "bytes ''KEY''" and message = "bytes ''HELLO''"
          and prog = "bytes ''safecipher''"]
      e f g p by (simp add: streq_def)
  from h a b c d e f g i show ?thesis by blast
qed

lemma contains_whitespace_eq:
  "contains_whitespace s = list_ex (\<lambda>c. isspace (uint c)) (c_str s)"
  by (induction s) (auto simp add: c_str_def)

lemma digits_value_foldl:
  "digits_value a ds = foldl (\<lambda>a d. 10 * a + (uint d - 48)) a ds"
  by (induction ds arbitrary: a) simp_all

lemma space_not_digit: "isspace (uint c) \<Longrightarrow> \<not> isdigit c"
  by (auto simp add: isspace_def isdigit_def)

lemma space_not_sign: "isspace (uint c) \<Longrightarrow> \<not> is_sign c"
  by (auto simp add: isspace_def is_sign_def)

lemma token_digits_cases:
  "s \<noteq> [] \<Longrightarrow> token_digits s = (if is_sign (hd s) then tl s else s)"
  by (cases s) (simp_all add: token_digits_def)

lemma decimal_token_no_space:
  assumes "decimal_token s"
  shows "\<not> list_ex (\<lambda>c. isspace (uint c)) s"
proof (cases s)
  case Nil
  then show ?thesis by simp
next
  case (Cons c r)
  show ?thesis
  proof (cases "is_sign c")
    case True
    then have "list_all isdigit r" using assms Cons by (simp add: decimal_token_def token_digits_def)
    then have "\<not> list_ex (\<lambda>c. isspace (uint c)) r"
      by (auto simp add: list_all_iff list_ex_iff dest: space_not_digit)
    then show ?thesis using True Cons space_not_sign [of c] by auto
  next
    case False
    then have "list_all isdigit s" using assms Cons by (simp add: decimal_token_def token_digits_def)
    then show ?thesis by (auto simp add: list_all_iff list_ex_iff dest: space_not_digit)
  qed
qed

text \<open>\<open>strtol\<close> on a string without white space.\<close>

lemma strtol_no_space:
  assumes "\<not> list_ex (\<lambda>c. isspace (uint c)) (c_str k)" "c_str k = c # r"
  shows "strtol k =
    (let td = token_digits (c # r); ds = takeWhile isdigit td;
         v = (if c = of_char CHR ''-'' then - digits_value 0 ds else digits_value 0 ds)
     in if ds = [] then (0, 0)
        else (max (- (2 ^ 63)) (min (2 ^ 63 - 1) v), length (c # r) - length td + length ds))"
proof -
  have ws: "takeWhile (\<lambda>c. isspace (uint c)) (c # r) = []"
    using assms by (auto simp add: list_ex_iff)
  show ?thesis
    unfolding strtol_def Let_def assms(2) ws
    by (auto simp add: token_digits_def is_sign_def)
qed

lemma load_string:
  assumes "e \<le> strlen k"
  shows "\<exists>ch. load k e = Inr ch \<and> (ch = 0) = (e = strlen k)"
proof (cases "e < strlen k")
  case True
  then have "k ! e = c_str k ! e" by (simp add: c_str_nth)
  moreover have "c_str k ! e \<in> set (c_str k)" using True by (simp add: length_c_str)
  ultimately have "k ! e \<noteq> 0" using zero_notin_c_str [of k] by metis
  moreover have "e < length k" using True strlen_le [of k] by simp
  ultimately show ?thesis using True by (simp add: load_def)
next
  case False
  with assms have e: "e = strlen k" by simp
  show ?thesis
  proof (cases "strlen k < length k")
    case True
    then have "k ! strlen k = 0"
      using nth_length_takeWhile [of "\<lambda>c. c \<noteq> 0" k] by (simp add: strlen_def)
    then show ?thesis using True e by (simp add: load_def)
  next
    case False
    then have "strlen k = length k" using strlen_le [of k] by simp
    then show ?thesis using e by (simp add: load_def)
  qed
qed

lemma strtol_end: "snd (strtol k) \<le> strlen k"
proof -
  let ?s = "c_str k"
  let ?ws = "takeWhile (\<lambda>c. isspace (uint c)) ?s"
  let ?r = "drop (length ?ws) ?s"
  have l: "length ?ws + length ?r = length ?s"
    using length_takeWhile_le [of "\<lambda>c. isspace (uint c)" ?s] by simp
  have A: "length ?ws + 0 + length (takeWhile isdigit (drop 0 ?r)) \<le> length ?s"
    using length_takeWhile_le [of isdigit "drop 0 ?r"] l by simp
  have B: "length ?ws + 1 + length (takeWhile isdigit (drop 1 ?r)) \<le> length ?s" if "?r \<noteq> []"
  proof -
    have "1 \<le> length ?r" using that by (cases ?r) simp_all
    moreover have "length (takeWhile isdigit (drop 1 ?r)) \<le> length ?r - 1"
      using length_takeWhile_le [of isdigit "drop 1 ?r"] by simp
    ultimately show ?thesis using l by linarith
  qed
  show ?thesis
  proof (cases "?r \<noteq> [] \<and> (hd ?r = of_char CHR ''-'' \<or> hd ?r = of_char CHR ''+'')")
    case True
    then have "snd (strtol k) \<le> length ?ws + 1 + length (takeWhile isdigit (drop 1 ?r))"
      unfolding strtol_def Let_def by (simp only: if_True split: if_splits) simp
    moreover from True have "?r \<noteq> []" by (rule conjunct1)
    ultimately show ?thesis using B unfolding length_c_str [symmetric] by linarith
  next
    case False
    then have "snd (strtol k) \<le> length ?ws + 0 + length (takeWhile isdigit (drop 0 ?r))"
      unfolding strtol_def Let_def by (simp only: if_False split: if_splits) simp
    with A show ?thesis unfolding length_c_str [symmetric] by linarith
  qed
qed

lemma decimal_token_nonempty: "decimal_token s \<Longrightarrow> s \<noteq> []"
  by (auto simp add: decimal_token_def token_digits_def)

lemma length_token_digits: "length (token_digits s) \<le> length s"
  by (cases s) (simp_all add: token_digits_def)

lemma token_value_Cons:
  "token_value (c # r) =
     (if c = of_char CHR ''-'' then - digits_value 0 (token_digits (c # r))
      else digits_value 0 (token_digits (c # r)))"
  by (simp add: token_value_def digits_value_foldl Let_def)

lemma takeWhile_all: "list_all P xs \<Longrightarrow> takeWhile P xs = xs"
  by (simp add: list_all_iff)

lemma takeWhile_short: "\<not> list_all P xs \<Longrightarrow> length (takeWhile P xs) < length xs"
proof -
  assume "\<not> list_all P xs"
  then have "takeWhile P xs \<noteq> xs" by (auto simp add: list_all_iff takeWhile_eq_all_conv)
  then show ?thesis
    using length_takeWhile_le [of P xs] takeWhile_eq_take [of P xs] by (cases "length (takeWhile P xs) = length xs") auto
qed

lemma strtol_valid:
  assumes "valid_int_key (c_str k)"
  shows "strtol k = (token_value (c_str k), strlen k)" and "\<not> contains_whitespace k"
proof -
  from assms have d: "decimal_token (c_str k)"
    and lo: "INT_MIN \<le> token_value (c_str k)" and hi: "token_value (c_str k) \<le> INT_MAX"
    by (simp_all add: valid_int_key_def)
  from d obtain c r where s: "c_str k = c # r"
    using decimal_token_nonempty by (cases "c_str k") auto
  have ns: "\<not> list_ex (\<lambda>c. isspace (uint c)) (c_str k)" using d by (rule decimal_token_no_space)
  then show "\<not> contains_whitespace k" by (simp add: contains_whitespace_eq)
  let ?td = "token_digits (c # r)"
  have td: "?td \<noteq> []" "takeWhile isdigit ?td = ?td"
    using d s by (simp_all add: decimal_token_def takeWhile_all)
  have cl: "max (- (2 ^ 63)) (min (2 ^ 63 - 1) (token_value (c # r))) = token_value (c # r)"
    using lo hi s by (simp add: INT_MIN_def INT_MAX_def)
  have ln: "length (c # r) - length ?td + length ?td = strlen k"
    using length_token_digits [of "c # r"] s length_c_str [of k] by simp
  show "strtol k = (token_value (c_str k), strlen k)"
    unfolding strtol_no_space [OF ns s] Let_def td token_value_Cons [symmetric] cl ln s
    using td(1) by simp
qed

lemma strtol_invalid:
  assumes "\<not> valid_int_key (c_str k)" "c_str k \<noteq> []"
  shows "\<exists>v e ch. strtol k = (v, e) \<and> load k e = Inr ch
           \<and> (ch \<noteq> 0 \<or> contains_whitespace k \<or> v < INT_MIN \<or> INT_MAX < v)"
proof -
  obtain v e where ve: "strtol k = (v, e)" by (cases "strtol k") auto
  have "e \<le> strlen k" using strtol_end [of k] ve by simp
  then obtain ch where ch: "load k e = Inr ch" "(ch = 0) = (e = strlen k)"
    using load_string by blast
  from assms(2) obtain c r where s: "c_str k = c # r" by (cases "c_str k") auto
  have sl: "strlen k = length (c # r)" using s length_c_str [of k] by simp
  let ?td = "token_digits (c # r)"
  let ?ds = "takeWhile isdigit ?td"
  show ?thesis
  proof (cases "contains_whitespace k")
    case True
    with ve ch show ?thesis by blast
  next
    case False
    then have ns: "\<not> list_ex (\<lambda>c. isspace (uint c)) (c_str k)"
      by (simp add: contains_whitespace_eq)
    note st = strtol_no_space [OF ns s, unfolded Let_def]
    show ?thesis
    proof (cases "?ds = []")
      case True
      then have "e = 0" using st ve by simp
      then have "ch \<noteq> 0" using ch(2) sl by simp
      with ve ch show ?thesis by blast
    next
      case ne: False
      show ?thesis
      proof (cases "list_all isdigit ?td")
        case False
        then have "length ?ds < length ?td" by (rule takeWhile_short)
        moreover have "e = length (c # r) - length ?td + length ?ds" using st ve ne by simp
        ultimately have "e < strlen k"
          using length_token_digits [of "c # r"] sl by linarith
        then have "ch \<noteq> 0" using ch(2) by simp
        with ve ch show ?thesis by blast
      next
        case True
        then have all: "?ds = ?td" by (rule takeWhile_all)
        with ne have "decimal_token (c # r)" using True by (simp add: decimal_token_def)
        with assms(1) s have out: "token_value (c # r) < INT_MIN \<or> INT_MAX < token_value (c # r)"
          by (auto simp add: valid_int_key_def)
        have "v = max (- (2 ^ 63)) (min (2 ^ 63 - 1) (token_value (c # r)))"
          using st ve ne unfolding all token_value_Cons [symmetric] by simp
        with out have "v < INT_MIN \<or> INT_MAX < v" by (auto simp add: INT_MIN_def INT_MAX_def)
        with ve ch show ?thesis by blast
      qed
    qed
  qed
qed

lemma handle_caesar_rejects:
  assumes "\<not> valid_int_key (c_str key_str)" "c_str key_str \<noteq> []"
  shows "handle_caesar operation key_str message buf =
     Inr \<lparr>exit_status = 1, stdout = [],
          stderr = bytes ''Please enter a valid integer key'' @ [10]\<rparr>"
proof -
  obtain v e ch where "strtol key_str = (v, e)" "load key_str e = Inr ch"
      "ch \<noteq> 0 \<or> contains_whitespace key_str \<or> v < INT_MIN \<or> INT_MAX < v"
    using strtol_invalid [OF assms] by blast
  then show ?thesis by (simp add: handle_caesar_def)
qed

lemma c_rem_long_pos: "0 < b \<Longrightarrow> c_rem_long a b = Inr (a smod b)"
  by (simp add: c_rem_long_def)

lemma handle_caesar_valid:
  assumes "valid_int_key (c_str key_str)"
  shows "handle_caesar operation key_str message buf =
     (case (if streq operation (bytes ''caesar-encrypt'')
            then caesar_encrypt RANGE_LOW RANGE_HIGH
                   (word_of_int (token_value (c_str key_str) mod 26)) message buf
            else caesar_decrypt RANGE_LOW RANGE_HIGH
                   (word_of_int (token_value (c_str key_str) mod 26)) message buf) of
        Inl e \<Rightarrow> Inl e
      | Inr result_text' \<Rightarrow>
          Inr \<lparr>exit_status = 0, stdout = c_str result_text' @ [10], stderr = []\<rparr>)"
proof -
  have l: "load key_str (strlen key_str) = Inr 0"
    using load_string [of "strlen key_str" key_str] by auto
  have r: "INT_MIN \<le> token_value (c_str key_str)" "token_value (c_str key_str) \<le> INT_MAX"
    using assms by (simp_all add: valid_int_key_def)
  have p: "(0::int) < 26" by simp
  show ?thesis
    using r
    by (simp add: handle_caesar_def strtol_valid [OF assms] l range_AZ(2) Let_def
          c_rem_long_pos [OF p] smod_renorm [OF p])
qed

lemma map_shift_nonzero:
  assumes "sint lo < sint hi" "\<not> in_range lo hi 0"
  shows "0 \<notin> set (map (shift_symbol lo hi k) (c_str m))"
proof
  assume "0 \<in> set (map (shift_symbol lo hi k) (c_str m))"
  then obtain x where x: "x \<in> set (c_str m)" "shift_symbol lo hi k x = 0" by auto
  from x(1) have "x \<noteq> 0" using zero_notin_c_str [of m] by auto
  then have "shift_symbol lo hi k x \<noteq> 0" by (rule shift_symbol_nonzero [OF assms])
  with x(2) show False by simp
qed

lemma printed_caesar_encrypt:
  assumes "0 \<le> kk" "kk < 26" "strlen message < 1024"
  shows "\<exists>t. caesar_encrypt RANGE_LOW RANGE_HIGH (word_of_int kk) message (replicate 1024 0) = Inr t
     \<and> c_str t = shift_encrypt RANGE_LOW RANGE_HIGH kk (c_str message)"
proof -
  have room: "strlen message < length (replicate 1024 (0 :: cchar))" using assms(3) by simp
  have k: "sint (word_of_int kk :: cint) = kk" using assms(1,2) by (intro sint_small_key) simp_all
  show ?thesis
    using caesar_encrypt_eq [OF range_AZ(1) room, of "word_of_int kk"]
      c_str_written [OF map_shift_nonzero [OF range_AZ(1,3)]]
    by (simp add: k shift_encrypt_def)
qed

lemma printed_caesar_decrypt:
  assumes "0 \<le> kk" "kk < 26" "strlen message < 1024"
  shows "\<exists>t. caesar_decrypt RANGE_LOW RANGE_HIGH (word_of_int kk) message (replicate 1024 0) = Inr t
     \<and> c_str t = shift_decrypt RANGE_LOW RANGE_HIGH kk (c_str message)"
proof -
  have room: "strlen message < length (replicate 1024 (0 :: cchar))" using assms(3) by simp
  have k: "sint (word_of_int kk :: cint) = kk" using assms(1,2) by (intro sint_small_key) simp_all
  have n: "sint (word_of_int kk :: cint) \<noteq> - (2 ^ 31)" using k assms(1) by simp
  show ?thesis
    using caesar_decrypt_eq [OF range_AZ(1) room n]
      c_str_written [OF map_shift_nonzero [OF range_AZ(1,3)]]
    by (simp add: k shift_decrypt_def shift_encrypt_def)
qed

lemma caesar_operation:
  assumes "streq operation (bytes ''caesar-encrypt'') \<or> streq operation (bytes ''caesar-decrypt'')"
  shows "\<not> streq operation (bytes ''vigenere-encrypt'')"
    and "\<not> streq operation (bytes ''vigenere-decrypt'')"
  using assms operations_differ
  by (auto simp add: streq_def c_str_bytes_vigenere_encrypt c_str_bytes_vigenere_decrypt
        c_str_bytes_caesar_encrypt c_str_bytes_caesar_decrypt)

text \<open>
  C7. For the two Caesar operations, \<open>cli\<close> returns the status 1 with a diagnostic on the
  standard error, and prints no result, whenever the key is not a decimal integer token
  (an optional sign, then digits, and nothing else) or its value is outside the range of
  \<open>int\<close>; and for a key it accepts, with a message that is not empty and shorter than
  1024, it calls the Caesar transform with the value reduced modulo 26 to the range from 0
  to 25, and prints its result. \<open>12a\<close>, \<open> 5\<close> and 2147483648 are no valid keys; \<open>-3\<close> is
  one and becomes 23.
\<close>

theorem integer_key_validation:
  assumes "streq operation (bytes ''caesar-encrypt'')
           \<or> streq operation (bytes ''caesar-decrypt'')"
  shows "(\<not> valid_int_key (c_str key_str) \<longrightarrow>
            (\<exists>r. cli [prog, operation, key_str, message] = Inr r
               \<and> exit_status r = 1 \<and> stderr r \<noteq> [] \<and> stdout r = []))
       \<and> (valid_int_key (c_str key_str) \<and> c_str message \<noteq> [] \<and> strlen message < 1024 \<longrightarrow>
            (\<exists>t. (if streq operation (bytes ''caesar-encrypt'')
                  then caesar_encrypt RANGE_LOW RANGE_HIGH
                         (word_of_int (token_value (c_str key_str) mod 26)) message
                         (replicate 1024 0)
                  else caesar_decrypt RANGE_LOW RANGE_HIGH
                         (word_of_int (token_value (c_str key_str) mod 26)) message
                         (replicate 1024 0)) = Inr t
               \<and> cli [prog, operation, key_str, message]
                   = Inr \<lparr>exit_status = 0, stdout = c_str t @ [10], stderr = []\<rparr>
               \<and> c_str t =
                   (if streq operation (bytes ''caesar-encrypt'')
                    then shift_encrypt RANGE_LOW RANGE_HIGH
                           (token_value (c_str key_str) mod 26) (c_str message)
                    else shift_decrypt RANGE_LOW RANGE_HIGH
                           (token_value (c_str key_str) mod 26) (c_str message))))
       \<and> \<not> valid_int_key (bytes ''12a'')
       \<and> \<not> valid_int_key (bytes '' 5'')
       \<and> \<not> valid_int_key (bytes ''2147483648'')
       \<and> valid_int_key (bytes ''-3'')
       \<and> token_value (bytes ''-3'') mod 26 = 23"
proof (intro conjI impI)
  note op = caesar_operation [OF assms]
  assume n: "\<not> valid_int_key (c_str key_str)"
  show "\<exists>r. cli [prog, operation, key_str, message] = Inr r
          \<and> exit_status r = 1 \<and> stderr r \<noteq> [] \<and> stdout r = []"
  proof (cases "c_str key_str = []")
    case True
    then show ?thesis by (simp add: cli_four load_first print_usage_nonempty)
  next
    case False
    from handle_caesar_rejects [OF n False] assms op show ?thesis
      by (simp add: cli_four print_usage_nonempty bytes_def)
  qed
next
  note op = caesar_operation [OF assms]
  let ?kk = "token_value (c_str key_str) mod 26"
  assume a: "valid_int_key (c_str key_str) \<and> c_str message \<noteq> [] \<and> strlen message < 1024"
  then have v: "valid_int_key (c_str key_str)" and m: "c_str message \<noteq> []"
    and l: "strlen message < 1024" by simp_all
  have ne: "c_str key_str \<noteq> []"
    using v decimal_token_nonempty by (auto simp add: valid_int_key_def)
  have kk: "0 \<le> ?kk" "?kk < 26" by simp_all
  have c: "cli [prog, operation, key_str, message]
      = handle_caesar operation key_str message (replicate 1024 0)"
    using assms op ne m l by (simp add: cli_four load_first)
  show "\<exists>t. (if streq operation (bytes ''caesar-encrypt'')
                  then caesar_encrypt RANGE_LOW RANGE_HIGH
                         (word_of_int (token_value (c_str key_str) mod 26)) message
                         (replicate 1024 0)
                  else caesar_decrypt RANGE_LOW RANGE_HIGH
                         (word_of_int (token_value (c_str key_str) mod 26)) message
                         (replicate 1024 0)) = Inr t
               \<and> cli [prog, operation, key_str, message]
                   = Inr \<lparr>exit_status = 0, stdout = c_str t @ [10], stderr = []\<rparr>
               \<and> c_str t =
                   (if streq operation (bytes ''caesar-encrypt'')
                    then shift_encrypt RANGE_LOW RANGE_HIGH
                           (token_value (c_str key_str) mod 26) (c_str message)
                    else shift_decrypt RANGE_LOW RANGE_HIGH
                           (token_value (c_str key_str) mod 26) (c_str message))"
  proof (cases "streq operation (bytes ''caesar-encrypt'')")
    case True
    obtain t where "caesar_encrypt RANGE_LOW RANGE_HIGH (word_of_int ?kk) message
          (replicate 1024 0) = Inr t"
        "c_str t = shift_encrypt RANGE_LOW RANGE_HIGH ?kk (c_str message)"
      using printed_caesar_encrypt [OF kk l] by blast
    then show ?thesis using True by (simp add: c handle_caesar_valid [OF v])
  next
    case False
    obtain t where "caesar_decrypt RANGE_LOW RANGE_HIGH (word_of_int ?kk) message
          (replicate 1024 0) = Inr t"
        "c_str t = shift_decrypt RANGE_LOW RANGE_HIGH ?kk (c_str message)"
      using printed_caesar_decrypt [OF kk l] by blast
    then show ?thesis using False by (simp add: c handle_caesar_valid [OF v])
  qed
next
  show "\<not> valid_int_key (bytes ''12a'')" by code_simp
next
  show "\<not> valid_int_key (bytes '' 5'')" by code_simp
next
  show "\<not> valid_int_key (bytes ''2147483648'')" by code_simp
next
  show "valid_int_key (bytes ''-3'')" by code_simp
next
  show "token_value (bytes ''-3'') mod 26 = 23" by code_simp
qed

theorem integer_key_validation_witness:
  "(streq (bytes ''caesar-encrypt'') (bytes ''caesar-encrypt'')
      \<or> streq (bytes ''caesar-encrypt'') (bytes ''caesar-decrypt''))
   \<and> \<not> valid_int_key (c_str (bytes ''12a''))
   \<and> cli [bytes ''safecipher'', bytes ''caesar-encrypt'', bytes ''12a'', bytes ''HELLO'']
       = Inr \<lparr>exit_status = 1, stdout = [],
              stderr = bytes ''Please enter a valid integer key'' @ [10]\<rparr>
   \<and> \<not> valid_int_key (c_str (bytes '' 5''))
   \<and> cli [bytes ''safecipher'', bytes ''caesar-encrypt'', bytes '' 5'', bytes ''HELLO'']
       = Inr \<lparr>exit_status = 1, stdout = [],
              stderr = bytes ''Please enter a valid integer key'' @ [10]\<rparr>
   \<and> \<not> valid_int_key (c_str (bytes ''99999999999999999999''))
   \<and> cli [bytes ''safecipher'', bytes ''caesar-encrypt'', bytes ''99999999999999999999'',
           bytes ''HELLO'']
       = Inr \<lparr>exit_status = 1, stdout = [],
              stderr = bytes ''Please enter a valid integer key'' @ [10]\<rparr>
   \<and> valid_int_key (c_str (bytes ''-3''))
   \<and> c_str (bytes ''HELLO'') \<noteq> []
   \<and> strlen (bytes ''HELLO'') < 1024
   \<and> token_value (c_str (bytes ''-3'')) mod 26 = 23
   \<and> cli [bytes ''safecipher'', bytes ''caesar-encrypt'', bytes ''-3'', bytes ''HELLO'']
       = Inr \<lparr>exit_status = 0, stdout = bytes ''EBIIL'' @ [10], stderr = []\<rparr>"
proof -
  have h: "streq (bytes ''caesar-encrypt'') (bytes ''caesar-encrypt'')
      \<or> streq (bytes ''caesar-encrypt'') (bytes ''caesar-decrypt'')"
    by (simp add: streq_def)
  have a: "\<not> valid_int_key (c_str (bytes ''12a''))" by code_simp
  have b: "cli [bytes ''safecipher'', bytes ''caesar-encrypt'', bytes ''12a'', bytes ''HELLO'']
       = Inr \<lparr>exit_status = 1, stdout = [],
              stderr = bytes ''Please enter a valid integer key'' @ [10]\<rparr>" by code_simp
  have c: "\<not> valid_int_key (c_str (bytes '' 5''))" by code_simp
  have d: "cli [bytes ''safecipher'', bytes ''caesar-encrypt'', bytes '' 5'', bytes ''HELLO'']
       = Inr \<lparr>exit_status = 1, stdout = [],
              stderr = bytes ''Please enter a valid integer key'' @ [10]\<rparr>" by code_simp
  have e: "\<not> valid_int_key (c_str (bytes ''99999999999999999999''))" by code_simp
  have f: "cli [bytes ''safecipher'', bytes ''caesar-encrypt'', bytes ''99999999999999999999'',
           bytes ''HELLO'']
       = Inr \<lparr>exit_status = 1, stdout = [],
              stderr = bytes ''Please enter a valid integer key'' @ [10]\<rparr>" by code_simp
  have g: "valid_int_key (c_str (bytes ''-3''))" by code_simp
  have i: "c_str (bytes ''HELLO'') \<noteq> []" by code_simp
  have j: "strlen (bytes ''HELLO'') < 1024" by code_simp
  have k: "token_value (c_str (bytes ''-3'')) mod 26 = 23" by code_simp
  have p: "shift_encrypt RANGE_LOW RANGE_HIGH 23 (c_str (bytes ''HELLO'')) = bytes ''EBIIL''"
    by code_simp
  have l: "cli [bytes ''safecipher'', bytes ''caesar-encrypt'', bytes ''-3'', bytes ''HELLO'']
       = Inr \<lparr>exit_status = 0, stdout = bytes ''EBIIL'' @ [10], stderr = []\<rparr>"
    using integer_key_validation [OF h, where key_str = "bytes ''-3''"
        and message = "bytes ''HELLO''" and prog = "bytes ''safecipher''"] g i j
    by (auto simp add: streq_def k p)
  from h a b c d e f g i j k l show ?thesis by blast
qed

end
